theory Spec2Isabelle
  imports Complex_Main
begin

section \<open>Errors\<close>

text \<open>
  The exceptions the modelled functions raise.  Every \<^verbatim>\<open>raise\<close>, failing
  \<^verbatim>\<open>assert\<close> and failing dictionary or array access of the source is a
  value \<open>Inl e\<close> of the result type \<open>error + 'a\<close>.
\<close>

datatype error =
    AssertionError
  | KeyError
  | IndexError
  | ValueError
  | InvalidParametersError
  | RecursionError

section \<open>Node classes\<close>

text \<open>
  The classes of \<^verbatim>\<open>node.py\<close> and of the parametric leaves.  \<open>type(n)\<close> is a
  value of \<open>ntype\<close>; \<open>is_leaf_type t\<close> is \<^verbatim>\<open>issubclass(t, ILeafNode)\<close>, so
  \<^verbatim>\<open>isinstance(n, ILeafNode)\<close> is \<open>is_leaf_type (type n)\<close>.
\<close>

datatype ntype =
    INode
  | ISumNode
  | IProductNode
  | ILeafNode
  | ParametricLeaf
  | Gaussian
  | Hypergeometric
  | Binomial
  | Bernoulli

fun is_leaf_type :: "ntype \<Rightarrow> bool" where
  "is_leaf_type INode = False"
| "is_leaf_type ISumNode = False"
| "is_leaf_type IProductNode = False"
| "is_leaf_type ILeafNode = True"
| "is_leaf_type ParametricLeaf = True"
| "is_leaf_type Gaussian = True"
| "is_leaf_type Hypergeometric = True"
| "is_leaf_type Binomial = True"
| "is_leaf_type Bernoulli = True"

section \<open>Node objects and their constructors\<close>

text \<open>
  A node object holds its class, the references to its children (of type \<open>'a\<close>), its
  scope and, for a sum node, the weights.  \<open>INode.__init__\<close>, \<open>IProductNode.__init__\<close>
  and \<open>ILeafNode.__init__\<close> store their arguments; none of them inspects a scope.

  \<open>ISumNode.__init__\<close> draws the weights when the argument is \<^verbatim>\<open>None\<close>:
  \<^verbatim>\<open>np.random.rand(k)\<close> is the parameter \<open>rand\<close>, \<open>k\<close> the sum of \<open>len(child)\<close>
  over the children, and \<open>INode.__len__\<close> returns 1.  Floating-point numbers are
  modelled as reals.
\<close>

record 'a node =
  node_type :: ntype
  children :: "'a list"
  scope :: "int list"
  weights :: "real list option"

definition INode_init :: "ntype \<Rightarrow> 'a list \<Rightarrow> int list \<Rightarrow> 'a node" where
  "INode_init cls cs sc = \<lparr>node_type = cls, children = cs, scope = sc, weights = None\<rparr>"

definition IProductNode_init :: "'a list \<Rightarrow> int list \<Rightarrow> 'a node" where
  "IProductNode_init cs sc = INode_init IProductNode cs sc"

definition ILeafNode_init :: "int list \<Rightarrow> 'a node" where
  "ILeafNode_init sc = INode_init ILeafNode [] sc"

definition node_len :: "'a \<Rightarrow> nat" where
  "node_len child = 1"

definition ISumNode_init ::
    "(nat \<Rightarrow> real list) \<Rightarrow> 'a list \<Rightarrow> int list \<Rightarrow> real list option \<Rightarrow> 'a node" where
  "ISumNode_init rand cs sc ws =
     (let self = INode_init ISumNode cs sc;
          w = (case ws of
                 None \<Rightarrow>
                   (let w0 = map (\<lambda>r. r + 1 / 10 ^ 8) (rand (sum_list (map node_len cs)))
                    in map (\<lambda>x. x / sum_list w0) w0)
               | Some w \<Rightarrow> w)
      in self\<lparr>weights := Some w\<rparr>)"

text \<open>What \<^verbatim>\<open>np.random.rand(k)\<close> promises: \<open>k\<close> samples from \<open>[0, 1)\<close>.\<close>

definition rand_ok :: "(nat \<Rightarrow> real list) \<Rightarrow> bool" where
  "rand_ok rand = (\<forall>k. length (rand k) = k \<and> list_all (\<lambda>r. 0 \<le> r \<and> r < 1) (rand k))"

text \<open>
  The weight invariant of the data model: one entry per child, no negative entry, and
  a sum within \<open>1e-5\<close> of 1.
\<close>

definition sum_weights_ok :: "'a node \<Rightarrow> bool" where
  "sum_weights_ok n =
     (case weights n of
        None \<Rightarrow> False
      | Some w \<Rightarrow> length w = length (children n) \<and> list_all (\<lambda>x. 0 \<le> x) w
                  \<and> \<bar>sum_list w - 1\<bar> \<le> 1 / 10 ^ 5)"

section \<open>Structural equality\<close>

text \<open>
  \<open>equals\<close> follows the child references recursively, so it is modelled on the
  object graph unfolded from a node: an \<open>snode\<close> carries its children themselves.
  The field \<open>s_weights\<close> is read for sum nodes only.

  \<open>x.equals(y)\<close> dispatches on the class of \<open>x\<close>: \<open>ISumNode.equals\<close> for a sum node,
  \<open>INode.equals\<close> otherwise.  In \<open>INode.equals\<close>,
  \<^verbatim>\<open>all(map(lambda x, y: x.equals(y), self.children, other.children))\<close> pairs the
  two lists up to the end of the shorter one and stops at the first \<open>False\<close>; this
  is \<open>all_equals\<close>.  \<^verbatim>\<open>np.allclose(a, b, rtol=1e-5)\<close> (with the default
  \<open>atol = 1e-8\<close>) on one-dimensional arrays broadcasts an array of length 1 and raises
  \<open>ValueError\<close> for other unequal lengths.
\<close>

datatype snode = SNode (s_type: ntype) (s_scope: "int list") (s_children: "snode list")
                       (s_weights: "real list")

definition isclose :: "real \<Rightarrow> real \<Rightarrow> bool" where
  "isclose a b = (\<bar>a - b\<bar> \<le> 1 / 10 ^ 8 + (1 / 10 ^ 5) * \<bar>b\<bar>)"

definition allclose :: "real list \<Rightarrow> real list \<Rightarrow> error + bool" where
  "allclose a b =
     (if length a = length b then Inr (list_all (\<lambda>(x, y). isclose x y) (zip a b))
      else if length a = 1 then Inr (list_all (\<lambda>y. isclose (hd a) y) b)
      else if length b = 1 then Inr (list_all (\<lambda>x. isclose x (hd b)) a)
      else Inl ValueError)"

fun equals :: "snode \<Rightarrow> snode \<Rightarrow> error + bool"
  and INode_equals :: "snode \<Rightarrow> snode \<Rightarrow> error + bool"
  and all_equals :: "snode list \<Rightarrow> snode list \<Rightarrow> error + bool" where
  "equals self other =
     (if s_type self = ISumNode then
        (if s_type other = ISumNode then
           (case INode_equals self other of
              Inl e \<Rightarrow> Inl e
            | Inr False \<Rightarrow> Inr False
            | Inr True \<Rightarrow>
               (case allclose (s_weights self) (s_weights other) of
                  Inl e \<Rightarrow> Inl e
                | Inr False \<Rightarrow> Inr False
                | Inr True \<Rightarrow> Inr (length (s_weights self) = length (s_weights other))))
         else Inr False)
      else INode_equals self other)"
| "INode_equals (SNode t sc cs w) other =
     (if t \<noteq> s_type other then Inr False
      else if sc \<noteq> s_scope other then Inr False
      else all_equals cs (s_children other))"
| "all_equals [] ys = Inr True"
| "all_equals (x # xs) [] = Inr True"
| "all_equals (x # xs) (y # ys) =
     (case equals x y of
        Inl e \<Rightarrow> Inl e
      | Inr False \<Rightarrow> Inr False
      | Inr True \<Rightarrow> all_equals xs ys)"

section \<open>Parametric leaves\<close>

subsection \<open>Hypergeometric: parameters handed to the statistics routine\<close>

text \<open>
  \<^verbatim>\<open>hypergeometric.py\<close>: the leaf stores \<open>N\<close>, \<open>M\<close>, \<open>n\<close>; each may have been
  set to \<^verbatim>\<open>None\<close> after construction.  The dictionary returned by
  \<open>get_scipy_object_parameters\<close> is an association list in insertion order.

  When a parameter is \<^verbatim>\<open>None\<close>, the argument of \<^verbatim>\<open>InvalidParametersError\<close> is
  the f-string \<^verbatim>\<open>f"Parameter 'N' of {node} must not be None"\<close>, which is evaluated
  before the exception object exists.  Formatting \<open>node\<close> calls the inherited
  \<^verbatim>\<open>ParametricLeaf.__str__\<close> (\<^verbatim>\<open>parametric.py\<close>), whose first statement is
  \<^verbatim>\<open>parameters = get_scipy_object_parameters(self)\<close>: the same dispatcher, on the
  same node.  \<open>Hypergeometric_str\<close> is that method at a Hypergeometric leaf; its
  result stands for the formatted text by the three values it interpolates (class
  name, scope, parameters).

  The interpreter bounds the nesting of calls.  \<open>depth\<close> is the number of calls that
  may still be nested inside the running call of \<open>get_scipy_object_parameters\<close>;
  a call attempted with none left raises \<open>RecursionError\<close>.
\<close>

record Hypergeometric_leaf =
  hyp_scope :: "int list"
  hyp_N :: "int option"
  hyp_M :: "int option"
  hyp_n :: "int option"

type_synonym 'v leaf_text = "string \<times> int list \<times> (string \<times> 'v) list"

fun Hypergeometric_get_scipy_object_parameters ::
      "nat \<Rightarrow> Hypergeometric_leaf \<Rightarrow> error + (string \<times> int) list"
  and Hypergeometric_str :: "nat \<Rightarrow> Hypergeometric_leaf \<Rightarrow> error + int leaf_text" where
  "Hypergeometric_get_scipy_object_parameters depth node =
     (case hyp_N node of
        None \<Rightarrow>
          (case Hypergeometric_str depth node of
             Inl e \<Rightarrow> Inl e | Inr msg \<Rightarrow> Inl InvalidParametersError)
      | Some vN \<Rightarrow>
     (case hyp_M node of
        None \<Rightarrow>
          (case Hypergeometric_str depth node of
             Inl e \<Rightarrow> Inl e | Inr msg \<Rightarrow> Inl InvalidParametersError)
      | Some vM \<Rightarrow>
     (case hyp_n node of
        None \<Rightarrow>
          (case Hypergeometric_str depth node of
             Inl e \<Rightarrow> Inl e | Inr msg \<Rightarrow> Inl InvalidParametersError)
      | Some vn \<Rightarrow> Inr [(''M'', vN), (''n'', vM), (''N'', vn)])))"
| "Hypergeometric_str 0 node = Inl RecursionError"
| "Hypergeometric_str (Suc depth) node =
     (case Hypergeometric_get_scipy_object_parameters depth node of
        Inl e \<Rightarrow> Inl e
      | Inr parameters \<Rightarrow> Inr (''Hypergeometric'', hyp_scope node, parameters))"

subsection \<open>Data matrices\<close>

text \<open>
  An \<open>N \<times> D\<close> array of floats, each cell a number or the missing marker.
  \<open>column_index\<close> is the index arithmetic of \<^verbatim>\<open>data[:, scope]\<close>: an index in
  \<open>[0, D)\<close> is itself, one in \<open>[-D, 0)\<close> counts from the end, anything else raises
  \<open>IndexError\<close>.
\<close>

datatype cell = NaN | Val real

record ndarray =
  nrows :: nat
  ncols :: nat
  cell_at :: "nat \<Rightarrow> nat \<Rightarrow> cell"

definition column_index :: "nat \<Rightarrow> int \<Rightarrow> error + nat" where
  "column_index D j =
     (if 0 \<le> j \<and> j < int D then Inr (nat j)
      else if - int D \<le> j \<and> j < 0 then Inr (nat (j + int D))
      else Inl IndexError)"

fun column_indices :: "nat \<Rightarrow> int list \<Rightarrow> error + nat list" where
  "column_indices D [] = Inr []"
| "column_indices D (j # js) =
     (case column_index D j of
        Inl e \<Rightarrow> Inl e
      | Inr c \<Rightarrow> (case column_indices D js of Inl e \<Rightarrow> Inl e | Inr cs \<Rightarrow> Inr (c # cs)))"

subsection \<open>Gaussian: likelihood and log-likelihood of a leaf\<close>

text \<open>
  \<^verbatim>\<open>base/inference/.../gaussian.py\<close>.  The result starts as a column of ones
  (zeros in log-space); \<^verbatim>\<open>data[:, node.scope]\<close> selects the scope columns; the
  entries that are not NaN are overwritten with the values of the statistics routine,
  called with the keyword arguments of \<open>get_scipy_object_parameters\<close>.  The boolean
  mask has one column per scope entry and the result has one column, so a scope of any
  other length than 1 fails in the masked assignment.  The routines \<open>pdf\<close> and
  \<open>logpdf\<close> of the statistics library are parameters; the result is the column as a
  list, one entry per row.  \<open>depth\<close> is the nesting left to the call of
  \<open>get_scipy_object_parameters\<close>.
\<close>

record Gaussian_leaf =
  gauss_scope :: "int list"
  gauss_mean :: "real option"
  gauss_stdev :: "real option"

text \<open>
  \<^verbatim>\<open>structure/.../gaussian.py\<close>: as for the Hypergeometric leaf, the message of
  \<^verbatim>\<open>InvalidParametersError\<close> formats the node, and \<^verbatim>\<open>ParametricLeaf.__str__\<close>
  (\<open>Gaussian_str\<close>) calls \<open>get_scipy_object_parameters\<close> on it again.
\<close>

fun Gaussian_get_scipy_object_parameters ::
      "nat \<Rightarrow> Gaussian_leaf \<Rightarrow> error + (string \<times> real) list"
  and Gaussian_str :: "nat \<Rightarrow> Gaussian_leaf \<Rightarrow> error + real leaf_text" where
  "Gaussian_get_scipy_object_parameters depth node =
     (case gauss_mean node of
        None \<Rightarrow>
          (case Gaussian_str depth node of
             Inl e \<Rightarrow> Inl e | Inr msg \<Rightarrow> Inl InvalidParametersError)
      | Some m \<Rightarrow>
     (case gauss_stdev node of
        None \<Rightarrow>
          (case Gaussian_str depth node of
             Inl e \<Rightarrow> Inl e | Inr msg \<Rightarrow> Inl InvalidParametersError)
      | Some s \<Rightarrow> Inr [(''loc'', m), (''scale'', s)]))"
| "Gaussian_str 0 node = Inl RecursionError"
| "Gaussian_str (Suc depth) node =
     (case Gaussian_get_scipy_object_parameters depth node of
        Inl e \<Rightarrow> Inl e
      | Inr parameters \<Rightarrow> Inr (''Gaussian'', gauss_scope node, parameters))"

type_synonym density = "real \<Rightarrow> (string \<times> real) list \<Rightarrow> real"

definition node_likelihood ::
    "nat \<Rightarrow> density \<Rightarrow> Gaussian_leaf \<Rightarrow> ndarray \<Rightarrow> error + real list" where
  "node_likelihood depth pdf node data =
     (case column_indices (ncols data) (gauss_scope node) of
        Inl e \<Rightarrow> Inl e
      | Inr cols \<Rightarrow>
     (case Gaussian_get_scipy_object_parameters depth node of
        Inl e \<Rightarrow> Inl e
      | Inr kw \<Rightarrow>
     (case cols of
        [c] \<Rightarrow> Inr (map (\<lambda>i. case cell_at data i c of NaN \<Rightarrow> 1 | Val x \<Rightarrow> pdf x kw)
                       [0..<nrows data])
      | _ \<Rightarrow> Inl IndexError)))"

definition node_log_likelihood ::
    "nat \<Rightarrow> density \<Rightarrow> Gaussian_leaf \<Rightarrow> ndarray \<Rightarrow> error + real list" where
  "node_log_likelihood depth logpdf node data =
     (case column_indices (ncols data) (gauss_scope node) of
        Inl e \<Rightarrow> Inl e
      | Inr cols \<Rightarrow>
     (case Gaussian_get_scipy_object_parameters depth node of
        Inl e \<Rightarrow> Inl e
      | Inr kw \<Rightarrow>
     (case cols of
        [c] \<Rightarrow> Inr (map (\<lambda>i. case cell_at data i c of NaN \<Rightarrow> 0 | Val x \<Rightarrow> logpdf x kw)
                       [0..<nrows data])
      | _ \<Rightarrow> Inl IndexError)))"

text \<open>
  The density of the docstring of class \<open>Gaussian\<close>,
  \<open>1/sqrt(2*pi*sigma^2) * exp(-(x-mu)^2/(2*sigma^2))\<close>, and its logarithm, with the
  keyword defaults \<open>loc = 0\<close>, \<open>scale = 1\<close>: an instance of the two routines.
\<close>

definition kwarg :: "(string \<times> real) list \<Rightarrow> string \<Rightarrow> real \<Rightarrow> real" where
  "kwarg kw name dflt = (case map_of kw name of None \<Rightarrow> dflt | Some v \<Rightarrow> v)"

definition norm_pdf :: density where
  "norm_pdf x kw =
     (let mu = kwarg kw ''loc'' 0; sigma = kwarg kw ''scale'' 1
      in 1 / sqrt (2 * pi * sigma\<^sup>2) * exp (- ((x - mu)\<^sup>2) / (2 * sigma\<^sup>2)))"

definition norm_logpdf :: density where
  "norm_logpdf x kw =
     (let mu = kwarg kw ''loc'' 0; sigma = kwarg kw ''scale'' 1
      in - ((x - mu)\<^sup>2) / (2 * sigma\<^sup>2) - ln (sqrt (2 * pi * sigma\<^sup>2)))"

subsection \<open>RAT-SPN wrappers\<close>

text \<open>
  \<^verbatim>\<open>rat_spn.py\<close>: both wrappers call the node-level \<open>log_likelihood\<close> (a
  parameter here) on the first output node; \<open>likelihood\<close> applies \<^verbatim>\<open>np.exp\<close>
  to its result.
\<close>

record ('c, 'n) RatSpn =
  network_type :: 'c
  output_nodes :: "'n list"

definition RatSpn_log_likelihood ::
    "('c \<Rightarrow> 'n \<Rightarrow> ndarray \<Rightarrow> error + real list) \<Rightarrow> ('c, 'n) RatSpn \<Rightarrow> ndarray
       \<Rightarrow> error + real list" where
  "RatSpn_log_likelihood log_likelihood rat_spn data =
     (case output_nodes rat_spn of
        [] \<Rightarrow> Inl IndexError
      | n # _ \<Rightarrow> log_likelihood (network_type rat_spn) n data)"

definition RatSpn_likelihood ::
    "('c \<Rightarrow> 'n \<Rightarrow> ndarray \<Rightarrow> error + real list) \<Rightarrow> ('c, 'n) RatSpn \<Rightarrow> ndarray
       \<Rightarrow> error + real list" where
  "RatSpn_likelihood log_likelihood rat_spn data =
     (case output_nodes rat_spn of
        [] \<Rightarrow> Inl IndexError
      | n # _ \<Rightarrow>
         (case log_likelihood (network_type rat_spn) n data of
            Inl e \<Rightarrow> Inl e
          | Inr ls \<Rightarrow> Inr (map exp ls)))"

section \<open>The node graph and its traversals\<close>

text \<open>
  Nodes are objects compared by identity: a heap maps each reference (of a finite
  type \<open>'a\<close>) to the object it points to.  Loops over a list that can fail are
  \<open>fold_err\<close>: the first failure ends the loop.
\<close>

type_synonym 'a heap = "'a \<Rightarrow> 'a node"

definition isinstance_leaf :: "'a heap \<Rightarrow> 'a \<Rightarrow> bool" where
  "isinstance_leaf h n = is_leaf_type (node_type (h n))"

fun fold_err :: "('x \<Rightarrow> 's \<Rightarrow> error + 's) \<Rightarrow> 'x list \<Rightarrow> 's \<Rightarrow> error + 's" where
  "fold_err f [] s = Inr s"
| "fold_err f (x # xs) s = (case f x s of Inl e \<Rightarrow> Inl e | Inr s' \<Rightarrow> fold_err f xs s')"

subsection \<open>Breadth-first traversal\<close>

text \<open>
  \<open>bfs\<close> keeps the set \<open>seen\<close> and the queue; \<open>visit_child\<close> is the body of the
  loop over the children of a dequeued node, which is skipped for an instance of
  \<open>ILeafNode\<close>.  The result is the list of nodes in the order in which \<open>func\<close> is
  called on them, and \<open>get_nodes_by_type\<close> keeps those that are instances of the
  requested class.
\<close>

definition visit_child :: "'a \<Rightarrow> 'a set \<times> 'a list \<Rightarrow> 'a set \<times> 'a list" where
  "visit_child c sq =
     (case sq of (seen, queue) \<Rightarrow>
        if c \<in> seen then (seen, queue) else (insert c seen, queue @ [c]))"

lemma visit_child_simps:
  "c \<in> seen \<Longrightarrow> visit_child c (seen, queue) = (seen, queue)"
  "c \<notin> seen \<Longrightarrow> visit_child c (seen, queue) = (insert c seen, queue @ [c])"
  by (simp_all add: visit_child_def)

lemma fold_visit_child:
  fixes seen :: "('a::finite) set"
  shows "fold visit_child cs (seen, queue) = (seen', queue')
    \<Longrightarrow> seen \<subseteq> seen' \<and> card (- seen') + length queue' = card (- seen) + length queue"
proof (induction cs arbitrary: seen queue)
  case Nil
  then show ?case by simp
next
  case (Cons c cs)
  show ?case
  proof (cases "c \<in> seen")
    case True
    then show ?thesis using Cons by (simp add: visit_child_simps)
  next
    case False
    then have f: "fold visit_child cs (insert c seen, queue @ [c]) = (seen', queue')"
      using Cons.prems by (simp add: visit_child_simps)
    have "c \<in> - seen" using False by simp
    then have "card (- seen) = Suc (card (- insert c seen))"
      by (metis Compl_insert card_Suc_Diff1 finite_code)
    then show ?thesis using Cons.IH[OF f] by auto
  qed
qed

function bfs_loop :: "('a::finite) heap \<Rightarrow> 'a set \<Rightarrow> 'a list \<Rightarrow> 'a list" where
  "bfs_loop h seen [] = []"
| "bfs_loop h seen (node # queue) =
     node # (if isinstance_leaf h node then bfs_loop h seen queue
             else (case fold visit_child (children (h node)) (seen, queue) of
                     (seen', queue') \<Rightarrow> bfs_loop h seen' queue'))"
  by pat_completeness auto
termination
  apply (relation "measure (\<lambda>(h, seen, queue). card (- seen) + length queue)")
    apply simp
   apply simp
  apply (drule sym)
  apply (drule fold_visit_child)
  apply simp
  done

definition bfs :: "('a::finite) heap \<Rightarrow> 'a \<Rightarrow> 'a list" where
  "bfs h node = bfs_loop h {node} [node]"

definition get_nodes_by_type :: "('a::finite) heap \<Rightarrow> 'a \<Rightarrow> (ntype \<Rightarrow> bool) \<Rightarrow> 'a list" where
  "get_nodes_by_type h node isinst = filter (\<lambda>n. isinst (node_type (h n))) (bfs h node)"

subsection \<open>Topological order\<close>

text \<open>
  \<open>get_topological_order\<close>.  The two ordered dictionaries are \<open>parents\<close> (looked up
  only, a map) and \<open>in_degree\<close> (also iterated, an association list in insertion
  order; \<open>dict_set\<close> is assignment to a key).  \<open>count_children\<close> is the body of the
  loop over \<open>nodes\<close> and \<open>add_parent\<close> the body of its inner loop.  The deque \<open>S\<close>
  is a list whose head is its right end: \<open>S.pop()\<close> takes the head and
  \<open>S.appendleft(m)\<close> appends at the end.  \<open>release_parents\<close> is the loop over
  \<open>parents[n]\<close> and \<open>release_parent\<close> its body.  \<open>pending\<close> counts the entries of
  \<open>in_degree\<close> that are still positive; it bounds the number of iterations left.
\<close>

type_synonym 'a parents = "'a \<rightharpoonup> 'a list"
type_synonym 'a in_degree = "('a \<times> int) list"

fun dict_set :: "('k \<times> 'v) list \<Rightarrow> 'k \<Rightarrow> 'v \<Rightarrow> ('k \<times> 'v) list" where
  "dict_set [] k v = [(k, v)]"
| "dict_set (p # d) k v = (if fst p = k then (k, v) # d else p # dict_set d k v)"

definition add_parent ::
    "'a \<Rightarrow> 'a \<Rightarrow> 'a parents \<times> 'a in_degree \<Rightarrow> error + 'a parents \<times> 'a in_degree" where
  "add_parent n c st =
     (case st of (parents, in_degree) \<Rightarrow>
        (let parent_list = (case parents c of None \<Rightarrow> [] | Some pl \<Rightarrow> pl);
             parents' = parents(c \<mapsto> parent_list @ [n])
         in case map_of in_degree n of
              None \<Rightarrow> Inl KeyError
            | Some k \<Rightarrow> Inr (parents', dict_set in_degree n (k + 1))))"

definition count_children ::
    "'a heap \<Rightarrow> 'a \<Rightarrow> 'a parents \<times> 'a in_degree \<Rightarrow> error + 'a parents \<times> 'a in_degree" where
  "count_children h n st =
     (case st of (parents, in_degree) \<Rightarrow>
        (let in_degree' =
               dict_set in_degree n (case map_of in_degree n of None \<Rightarrow> 0 | Some k \<Rightarrow> k)
         in if isinstance_leaf h n then Inr (parents, in_degree')
            else fold_err (add_parent n) (children (h n)) (parents, in_degree')))"

definition release_parent ::
    "'a \<Rightarrow> 'a in_degree \<times> 'a list \<Rightarrow> error + 'a in_degree \<times> 'a list" where
  "release_parent m st =
     (case st of (in_degree, S) \<Rightarrow>
        (case map_of in_degree m of
           None \<Rightarrow> Inl KeyError
         | Some k \<Rightarrow>
            (let in_degree_m = k - 1;
                 in_degree' = dict_set in_degree m in_degree_m
             in if in_degree_m = 0 then Inr (in_degree', S @ [m]) else Inr (in_degree', S))))"

definition release_parents ::
    "'a parents \<Rightarrow> 'a \<Rightarrow> 'a in_degree \<times> 'a list \<Rightarrow> error + 'a in_degree \<times> 'a list" where
  "release_parents parents n st =
     (case parents n of
        None \<Rightarrow> Inl KeyError
      | Some ms \<Rightarrow> fold_err release_parent ms st)"

definition pending :: "'a in_degree \<Rightarrow> nat" where
  "pending d = length (filter (\<lambda>p. 0 < snd p) d)"

lemma pending_dict_set:
  "map_of d m = Some k \<Longrightarrow>
     pending (dict_set d m (k - 1)) + (if k - 1 = 0 then 1 else 0) = pending d"
proof (induction d)
  case Nil
  then show ?case by simp
next
  case (Cons p d)
  show ?case
  proof (cases "fst p = m")
    case True
    then have "snd p = k" using Cons.prems by (cases p) auto
    then show ?thesis using True by (auto simp: pending_def)
  next
    case False
    then have "map_of d m = Some k" using Cons.prems by (cases p) auto
    from Cons.IH[OF this] show ?thesis using False by (auto simp: pending_def)
  qed
qed

lemma release_parent_pending:
  "release_parent m (d, S) = Inr (d', S') \<Longrightarrow> pending d' + length S' = pending d + length S"
  using pending_dict_set[of d m]
  by (auto simp: release_parent_def Let_def split: option.splits if_splits)

lemma fold_release_parent_pending:
  "fold_err release_parent ms (d, S) = Inr (d', S')
     \<Longrightarrow> pending d' + length S' = pending d + length S"
proof (induction ms arbitrary: d S)
  case Nil
  then show ?case by simp
next
  case (Cons m ms)
  then obtain d1 S1 where 1: "release_parent m (d, S) = Inr (d1, S1)"
      and 2: "fold_err release_parent ms (d1, S1) = Inr (d', S')"
    by (auto split: sum.splits)
  show ?case using release_parent_pending[OF 1] Cons.IH[OF 2] by simp
qed

lemma release_parents_pending:
  "release_parents parents n (d, S) = Inr (d', S')
     \<Longrightarrow> pending d' + length S' = pending d + length S"
  by (auto simp: release_parents_def split: option.splits dest: fold_release_parent_pending)

function kahn_loop ::
    "'a parents \<Rightarrow> 'a in_degree \<Rightarrow> 'a list \<Rightarrow> 'a list \<Rightarrow> error + 'a list" where
  "kahn_loop parents in_degree [] L = Inr L"
| "kahn_loop parents in_degree (n # S) L =
     (case release_parents parents n (in_degree, S) of
        Inl e \<Rightarrow> Inl e
      | Inr (in_degree', S') \<Rightarrow> kahn_loop parents in_degree' S' (L @ [n]))"
  by pat_completeness auto
termination
proof (relation "measure (\<lambda>(parents, d, S, L). pending d + length S)", goal_cases)
  case 1
  show ?case by simp
next
  case (2 parents in_degree n S L b x y)
  then have "release_parents parents n (in_degree, S) = Inr (x, y)" by simp
  from release_parents_pending[OF this] show ?case by simp
qed

definition get_topological_order :: "('a::finite) heap \<Rightarrow> 'a \<Rightarrow> error + 'a list" where
  "get_topological_order h node =
     (let nodes = get_nodes_by_type h node (\<lambda>t. True)
      in case fold_err (count_children h) nodes ([node \<mapsto> []], []) of
           Inl e \<Rightarrow> Inl e
         | Inr (parents, in_degree) \<Rightarrow>
            (let S = map fst (filter (\<lambda>p. snd p = 0) in_degree)
             in case kahn_loop parents in_degree S [] of
                  Inl e \<Rightarrow> Inl e
                | Inr L \<Rightarrow> if length L = length nodes then Inr L else Inl AssertionError))"


subsection \<open>Layers of the topological order\<close>

text \<open>
  \<open>get_topological_order_layers\<close> builds the same two dictionaries.  \<open>layers_loop\<close>
  is its \<^verbatim>\<open>while True\<close> loop: the parents of the nodes of the last layer
  \<open>L[-1]\<close> are released into a fresh list \<open>layer\<close>, and the loop ends when that list
  stays empty.  \<open>L\<close> is never empty.
\<close>

lemma fold_release_parents_pending:
  "fold_err (release_parents parents) ns (d, S) = Inr (d', S')
     \<Longrightarrow> pending d' + length S' = pending d + length S"
proof (induction ns arbitrary: d S)
  case Nil
  then show ?case by simp
next
  case (Cons n ns)
  then obtain d1 S1 where 1: "release_parents parents n (d, S) = Inr (d1, S1)"
      and 2: "fold_err (release_parents parents) ns (d1, S1) = Inr (d', S')"
    by (auto split: sum.splits)
  show ?case using release_parents_pending[OF 1] Cons.IH[OF 2] by simp
qed

function layers_loop ::
    "'a parents \<Rightarrow> 'a in_degree \<Rightarrow> 'a list list \<Rightarrow> nat \<Rightarrow> error + 'a list list \<times> nat" where
  "layers_loop parents in_degree L added_nodes =
     (case fold_err (release_parents parents) (last L) (in_degree, []) of
        Inl e \<Rightarrow> Inl e
      | Inr (in_degree', layer) \<Rightarrow>
          if length layer = 0 then Inr (L, added_nodes)
          else layers_loop parents in_degree' (L @ [layer]) (added_nodes + length layer))"
  by pat_completeness auto
termination
proof (relation "measure (\<lambda>(parents, d, L, added). pending d)", goal_cases)
  case 1
  show ?case by simp
next
  case (2 parents in_degree L added_nodes b x y)
  then have "fold_err (release_parents parents) (last L) (in_degree, []) = Inr (x, y)"
    by simp
  from fold_release_parents_pending[OF this]
  have "pending x + length y = pending in_degree" by simp
  moreover have "y \<noteq> []" using 2 by simp
  ultimately show ?case by (cases y) simp_all
qed

declare layers_loop.simps [simp del]

definition get_topological_order_layers ::
    "('a::finite) heap \<Rightarrow> 'a \<Rightarrow> error + 'a list list" where
  "get_topological_order_layers h node =
     (let nodes = get_nodes_by_type h node (\<lambda>t. True)
      in case fold_err (count_children h) nodes ([node \<mapsto> []], []) of
           Inl e \<Rightarrow> Inl e
         | Inr (parents, in_degree) \<Rightarrow>
            (let layer = map fst (filter (\<lambda>p. snd p = 0) in_degree)
             in case layers_loop parents in_degree [layer] (length layer) of
                  Inl e \<Rightarrow> Inl e
                | Inr (L, added_nodes) \<Rightarrow>
                    if added_nodes = length nodes then Inr L else Inl AssertionError))"

subsection \<open>The graph below a root\<close>

text \<open>
  The children a traversal follows: those of a node that is not an instance of
  \<open>ILeafNode\<close>.  \<open>reachable h r\<close> are the nodes of the graph with root \<open>r\<close> and
  \<open>reach_edges h r\<close> its parent-child edges.
\<close>

definition kids :: "'a heap \<Rightarrow> 'a \<Rightarrow> 'a list" where
  "kids h n = (if isinstance_leaf h n then [] else children (h n))"

definition edges :: "'a heap \<Rightarrow> ('a \<times> 'a) set" where
  "edges h = {(n, c). c \<in> set (kids h n)}"

definition reachable :: "'a heap \<Rightarrow> 'a \<Rightarrow> 'a set" where
  "reachable h r = (edges h)\<^sup>* `` {r}"

definition reach_edges :: "'a heap \<Rightarrow> 'a \<Rightarrow> ('a \<times> 'a) set" where
  "reach_edges h r = {(n, c). n \<in> reachable h r \<and> c \<in> set (kids h n)}"

subsection \<open>Notions used in the proofs\<close>

text \<open>
  \<open>bfs_ok\<close> is what the rest of a breadth-first traversal produces; \<open>plof\<close> reads a
  list of parents with the default \<open>[]\<close> and \<open>add_kids\<close> is the effect of
  \<open>count_children\<close> on \<open>parents\<close>.  \<open>remaining h L m\<close> counts, with multiplicity, the
  children of \<open>m\<close> that are not in \<open>L\<close>; \<open>topo h L\<close> says that every node of \<open>L\<close>
  comes after all its children; \<open>parents_ok\<close> and \<open>kahn_inv\<close> are the facts that hold
  of the dictionaries, the deque and the list during the loop of
  \<open>get_topological_order\<close>.
\<close>

definition bfs_ok :: "'a heap \<Rightarrow> 'a set \<Rightarrow> 'a list \<Rightarrow> 'a list \<Rightarrow> bool" where
  "bfs_ok h seen queue R \<longleftrightarrow>
     distinct R \<and> set queue \<subseteq> set R \<and> set R \<inter> (seen - set queue) = {}
   \<and> set R \<subseteq> (edges h)\<^sup>* `` set queue
   \<and> (\<forall>n \<in> set R. set (kids h n) \<subseteq> set R \<union> seen)"

definition plof :: "'a parents \<Rightarrow> 'a \<Rightarrow> 'a list" where
  "plof p c = (case p c of None \<Rightarrow> [] | Some pl \<Rightarrow> pl)"

definition add_kids :: "'a heap \<Rightarrow> 'a \<Rightarrow> 'a parents \<Rightarrow> 'a parents" where
  "add_kids h n p =
     (\<lambda>c. if c \<in> set (kids h n)
          then Some (plof p c @ replicate (count_list (kids h n) c) n) else p c)"

definition remaining :: "'a heap \<Rightarrow> 'a list \<Rightarrow> 'a \<Rightarrow> int" where
  "remaining h L m = int (length (filter (\<lambda>c. c \<notin> set L) (kids h m)))"

definition topo :: "'a heap \<Rightarrow> 'a list \<Rightarrow> bool" where
  "topo h L = (\<forall>i<length L. set (kids h (L ! i)) \<subseteq> set (take i L))"

definition parents_ok :: "'a heap \<Rightarrow> 'a list \<Rightarrow> 'a parents \<Rightarrow> bool" where
  "parents_ok h nodes parents =
     (\<forall>c\<in>set nodes. \<exists>ms. parents c = Some ms \<and> set ms \<subseteq> set nodes
          \<and> (\<forall>m\<in>set nodes. count_list ms m = count_list (kids h m) c))"

definition kahn_inv ::
    "'a heap \<Rightarrow> 'a list \<Rightarrow> 'a in_degree \<Rightarrow> 'a list \<Rightarrow> 'a list \<Rightarrow> bool" where
  "kahn_inv h nodes d S L =
     (map fst d = nodes
      \<and> (\<forall>m\<in>set nodes. map_of d m = Some (remaining h L m))
      \<and> distinct (L @ S) \<and> set (L @ S) \<subseteq> set nodes
      \<and> (\<forall>m\<in>set nodes. m \<in> set (L @ S) \<longleftrightarrow> set (kids h m) \<subseteq> set L)
      \<and> topo h L)"


section \<open>The evaluators\<close>

subsection \<open>Bottom-up evaluation\<close>

text \<open>
  \<open>eval_spn_bottom_up\<close>.  \<open>eval_functions\<close> is a dictionary from classes to
  callables.  A callable is called as \<^verbatim>\<open>func(n, **args)\<close> on a leaf and as
  \<^verbatim>\<open>func(n, children_results, **args)\<close> otherwise: the optional list is the second
  argument; the extra \<open>args\<close> are part of the callable.  A callable may raise.

  \<open>node_type_eval_func_dict[type(n)][-1]\<close> is \<open>eval_functions[type(n)]\<close>, since every
  list of that dictionary holds the one callable registered for the class, and
  \<open>node_type_is_leaf_dict[type(n)]\<close> is \<^verbatim>\<open>issubclass(type(n), ILeafNode)\<close>.
  \<open>bottom_up_func\<close> is the \<^verbatim>\<open>try ... except\<close> block that chooses \<open>func\<close> and
  \<open>n_is_leaf\<close>; it also returns the key under which \<open>func\<close> was found.
  \<open>lookup_all\<close> reads \<open>all_results[ci]\<close> for the children in order; the slice
  \<open>tmp_children_list[0:len_children]\<close> handed to \<open>func\<close> holds exactly these values.

  The state of the loop is \<open>all_results\<close> together with \<open>calls\<close>, the list of the
  invocations made so far: the node and the key of the callable invoked on it.
  \<open>bottom_up_run\<close> is the function up to the end of the loop and
  \<open>eval_spn_bottom_up\<close> returns \<open>all_results[node]\<close>.
\<close>

type_synonym ('a, 'r) eval_function = "'a \<Rightarrow> 'r list option \<Rightarrow> error + 'r"



type_synonym ('a, 'r) run_state = "('a \<rightharpoonup> 'r) \<times> ('a \<times> ntype) list"




subsection \<open>Top-down evaluation\<close>

text \<open>
  \<open>eval_spn_top_down\<close>.  A callable receives the node and the list of messages
  pushed to it, and returns \<^verbatim>\<open>None\<close> or a dictionary from children to messages
  (its items, in order).  \<open>top_down_func\<close> is the choice of \<open>func\<close>, with the key
  under which it was found; \<open>push_result\<close> is the body of the loop over
  \<^verbatim>\<open>result.items()\<close>.  The nodes are visited layer by layer from the last layer of
  \<open>get_topological_order_layers\<close> to the first.  \<open>top_down_run\<close> is the function up
  to the end of the loop, with the final \<open>all_results\<close>, the dictionary the caller may
  have supplied.
\<close>

type_synonym ('a, 'p) push_function = "'a \<Rightarrow> 'p list \<Rightarrow> error + ('a \<times> 'p) list option"

definition top_down_func ::
    "'a heap \<Rightarrow> (ntype \<rightharpoonup> ('a, 'p) push_function) \<Rightarrow> 'a
       \<Rightarrow> error + ntype \<times> ('a, 'p) push_function" where
  "top_down_func h eval_functions n =
     (let by_type = (case eval_functions (node_type (h n)) of
                       None \<Rightarrow> Inl KeyError
                     | Some func \<Rightarrow> Inr (node_type (h n), func))
      in case eval_functions ILeafNode of
           Some leaf_func \<Rightarrow> if isinstance_leaf h n then Inr (ILeafNode, leaf_func) else by_type
         | None \<Rightarrow> by_type)"

definition push_result :: "'a \<times> 'p \<Rightarrow> ('a \<rightharpoonup> 'p list) \<Rightarrow> ('a \<rightharpoonup> 'p list)" where
  "push_result item all_results =
     (case item of (child, param) \<Rightarrow>
        all_results(child \<mapsto> (case all_results child of None \<Rightarrow> [] | Some ps \<Rightarrow> ps) @ [param]))"

definition eval_node_top_down ::
    "'a heap \<Rightarrow> (ntype \<rightharpoonup> ('a, 'p) push_function) \<Rightarrow> 'a
       \<Rightarrow> ('a, 'p list) run_state \<Rightarrow> error + ('a, 'p list) run_state" where
  "eval_node_top_down h eval_functions n st =
     (case st of (all_results, calls) \<Rightarrow>
       (case top_down_func h eval_functions n of
          Inl e \<Rightarrow> Inl e
        | Inr (key, func) \<Rightarrow>
           (case all_results n of
              None \<Rightarrow> Inl KeyError
            | Some params \<Rightarrow>
               (case func n params of
                  Inl e \<Rightarrow> Inl e
                | Inr result \<Rightarrow>
                    Inr (case result of
                           None \<Rightarrow> all_results
                         | Some items \<Rightarrow>
                             if \<not> isinstance_leaf h n then fold push_result items all_results
                             else all_results,
                         calls @ [(n, key)])))))"

definition top_down_run ::
    "('a::finite) heap \<Rightarrow> 'a \<Rightarrow> (ntype \<rightharpoonup> ('a, 'p) push_function) \<Rightarrow> 'p
       \<Rightarrow> error + ('a, 'p list) run_state" where
  "top_down_run h root_node eval_functions parent_result =
     (let all_results = [root_node \<mapsto> [parent_result]]
      in case get_topological_order_layers h root_node of
           Inl e \<Rightarrow> Inl e
         | Inr L \<Rightarrow>
             fold_err (eval_node_top_down h eval_functions) (concat (rev L)) (all_results, []))"

definition eval_spn_top_down ::
    "('a::finite) heap \<Rightarrow> 'a \<Rightarrow> (ntype \<rightharpoonup> ('a, 'p) push_function) \<Rightarrow> 'p
       \<Rightarrow> error + 'p list" where
  "eval_spn_top_down h root_node eval_functions parent_result =
     (case top_down_run h root_node eval_functions parent_result of
        Inl e \<Rightarrow> Inl e
      | Inr (all_results, calls) \<Rightarrow>
         (case all_results root_node of None \<Rightarrow> Inl KeyError | Some ps \<Rightarrow> Inr ps))"

subsection \<open>Example graphs\<close>

text \<open>
  Five references.  \<open>diamond\<close>: a sum node over two product nodes that share a leaf,
  one of them holding it twice.  \<open>cyc\<close>: a sum node that is its own grandchild.
  \<open>overlap\<close>: a product node over two leaves of the same scope, and a sum node over
  that product and a leaf of another scope.
\<close>

datatype nid = N0 | N1 | N2 | N3 | N4

instantiation nid :: finite
begin
instance
proof
  have "(UNIV :: nid set) = {N0, N1, N2, N3, N4}"
    using nid.exhaust by auto
  then show "finite (UNIV :: nid set)" by (metis finite.emptyI finite.insertI)
qed
definition no_rand :: "nat \<Rightarrow> real list" where
  "no_rand k = []"

definition overlap :: "nid heap" where
  "overlap = (\<lambda>_. ILeafNode_init [1])
     (N0 := ISumNode_init no_rand [N1, N4] [0] (Some [1/2, 1/2]),
      N1 := IProductNode_init [N2, N3] [0],
      N2 := ILeafNode_init [0],
      N3 := ILeafNode_init [0])"

text \<open>
  Callables for the examples: bottom-up, a leaf yields 2 (a Gaussian leaf 3 in
  \<open>gaussian_count_functions\<close>), a product node the product and a sum node the sum
  of the results of its children; top-down, a sum node and a product
  node push a number to each child and the generic leaf callable pushes nothing.
\<close>

definition count_functions :: "ntype \<rightharpoonup> (nid, int) eval_function" where
  "count_functions =
     [ILeafNode \<mapsto> (\<lambda>n arg. Inr 2),
      IProductNode \<mapsto> (\<lambda>n arg. case arg of None \<Rightarrow> Inl ValueError
                                   | Some rs \<Rightarrow> Inr (prod_list rs)),
      ISumNode \<mapsto> (\<lambda>n arg. case arg of None \<Rightarrow> Inl ValueError
                               | Some rs \<Rightarrow> Inr (sum_list rs))]"

definition gaussian_count_functions :: "ntype \<rightharpoonup> (nid, int) eval_function" where
  "gaussian_count_functions = count_functions(Gaussian \<mapsto> (\<lambda>n arg. Inr 3))"

definition push_functions :: "ntype \<rightharpoonup> (nid, int) push_function" where
  "push_functions =
     [ILeafNode \<mapsto> (\<lambda>n params. Inr None),
      Gaussian \<mapsto> (\<lambda>n params. Inl ValueError),
      IProductNode \<mapsto> (\<lambda>n params. Inr (Some (if n = N1 then [(N3, 3), (N4, 4)]
                                               else [(N3, 5)]))),
      ISumNode \<mapsto> (\<lambda>n params. Inr (Some [(N1, 1), (N2, 2)]))]"

end

definition leaf :: "nid node" where
  "leaf = \<lparr>node_type = Gaussian, children = [], scope = [0], weights = None\<rparr>"

definition diamond :: "nid heap" where
  "diamond = (\<lambda>_. leaf)
     (N0 := \<lparr>node_type = ISumNode, children = [N1, N2], scope = [0],
             weights = Some [1/2, 1/2]\<rparr>,
      N1 := \<lparr>node_type = IProductNode, children = [N3, N4], scope = [0], weights = None\<rparr>,
      N2 := \<lparr>node_type = IProductNode, children = [N3, N3], scope = [0], weights = None\<rparr>)"

definition cyc :: "nid heap" where
  "cyc = (\<lambda>_. leaf)
     (N0 := \<lparr>node_type = ISumNode, children = [N1, N2], scope = [0],
             weights = Some [1/2, 1/2]\<rparr>,
      N1 := \<lparr>node_type = IProductNode, children = [N0], scope = [0], weights = None\<rparr>)"

section \<open>Properties of the node model\<close>

lemma sum_list_pos_real:
  fixes xs :: "real list"
  shows "xs \<noteq> [] \<Longrightarrow> list_all (\<lambda>x. 0 < x) xs \<Longrightarrow> 0 < sum_list xs"
proof (induction xs)
  case Nil
  then show ?case by simp
next
  case (Cons x xs)
  show ?case
  proof (cases xs)
    case Nil
    then show ?thesis using Cons.prems by simp
  next
    case (Cons y ys)
    then have "0 < sum_list xs" using Cons.IH Cons.prems by simp
    then show ?thesis using Cons.prems by (simp add: add_pos_pos)
  qed
qed

lemma sum_list_div:
  fixes xs :: "real list"
  shows "sum_list (map (\<lambda>x. x / c) xs) = sum_list xs / c"
  by (induction xs) (auto simp: add_divide_distrib)

lemma sum_node_len: "sum_list (map node_len cs) = length cs"
  by (induction cs) (auto simp: node_len_def)

text \<open>
  C5 (as stated). Every sum node has one weight per child, no negative weight, and
  weights summing to 1 within \<open>1e-5\<close>.  The constructor stores a weights argument as
  it is, so a node built with the weights \<open>[2, -3]\<close> over one child violates all
  three; and with no children and no weights argument the drawn vector is empty and
  sums to 0.
\<close>

theorem C5_supplied_weights_unchecked:
  "\<not> sum_weights_ok (ISumNode_init (\<lambda>k. replicate k 0) [1::nat] [0] (Some [2, -3]))
   \<and> \<not> sum_weights_ok (ISumNode_init (\<lambda>k. replicate k 0) ([]::nat list) [0] None)"
  by (simp add: sum_weights_ok_def ISumNode_init_def INode_init_def)

text \<open>
  C5 (amended). When the weights argument is omitted and the node has at least one
  child, the drawn vector has one entry per child, strictly positive entries, and sums
  to 1; a weights argument that is given is stored unchanged.
\<close>

theorem C5_generated_weights:
  "(rand_ok rand \<and> cs \<noteq> [] \<longrightarrow>
      (\<exists>w. weights (ISumNode_init rand cs sc None) = Some w
          \<and> length w = length cs \<and> list_all (\<lambda>x. 0 < x) w \<and> sum_list w = 1
          \<and> sum_weights_ok (ISumNode_init rand cs sc None)))
   \<and> weights (ISumNode_init rand cs sc (Some ws)) = Some ws"
proof (intro conjI impI)
  assume a: "rand_ok rand \<and> cs \<noteq> []"
  define w0 where "w0 = map (\<lambda>r. r + 1 / 10 ^ 8) (rand (sum_list (map node_len cs)))"
  have len: "length w0 = length cs"
    using a by (simp add: w0_def rand_ok_def sum_node_len)
  have pos: "list_all (\<lambda>x. 0 < x) w0"
    using a unfolding w0_def rand_ok_def list_all_iff
    by (auto intro: add_nonneg_pos)
  have ne: "w0 \<noteq> []" using len a by auto
  have S: "0 < sum_list w0" using sum_list_pos_real[OF ne pos] .
  define w where "w = map (\<lambda>x. x / sum_list w0) w0"
  have w: "weights (ISumNode_init rand cs sc None) = Some w"
    by (simp add: ISumNode_init_def INode_init_def Let_def w0_def w_def)
  have c: "children (ISumNode_init rand cs sc None) = cs"
    by (simp add: ISumNode_init_def INode_init_def Let_def)
  have wpos: "list_all (\<lambda>x. 0 < x) w"
    using pos S by (auto simp: list_all_iff w_def)
  then have wnn: "list_all (\<lambda>x. 0 \<le> x) w"
    by (auto simp: list_all_iff intro: less_imp_le)
  have wsum: "sum_list w = 1"
    using S by (simp add: sum_list_div w_def)
  have wlen: "length w = length cs" using len by (simp add: w_def)
  have "sum_weights_ok (ISumNode_init rand cs sc None)"
    using w c wnn wsum wlen by (simp add: sum_weights_ok_def)
  then show "\<exists>w. weights (ISumNode_init rand cs sc None) = Some w
          \<and> length w = length cs \<and> list_all (\<lambda>x. 0 < x) w \<and> sum_list w = 1
          \<and> sum_weights_ok (ISumNode_init rand cs sc None)"
    using w wpos wsum wlen by blast
next
  show "weights (ISumNode_init rand cs sc (Some ws)) = Some ws"
    by (simp add: ISumNode_init_def INode_init_def)
qed

theorem C5_generated_weights_witness:
  "rand_ok (\<lambda>k. replicate k (1 / 2)) \<and> [1::nat, 2] \<noteq> []
   \<and> sum_weights_ok (ISumNode_init (\<lambda>k. replicate k (1 / 2)) [1::nat, 2] [0] None)
   \<and> weights (ISumNode_init (\<lambda>k. replicate k (1 / 2)) [1::nat, 2] [0] (Some [2, -3]))
       = Some [2, -3]"
proof -
  have r: "rand_ok (\<lambda>k. replicate k (1 / 2))"
    by (simp add: rand_ok_def list_all_iff)
  show ?thesis
    using r C5_generated_weights
            [of "\<lambda>k. replicate k (1 / 2)" "[1::nat, 2]" "[0]" "[2, -3]"]
    by blast
qed

text \<open>
  C6. \<open>a.equals(b)\<close> is true only if \<open>a\<close> and \<open>b\<close> have equally many children.  The
  code pairs the children up to the shorter list: a product node over two leaves
  equals the product node of the same scope over the first leaf alone.
\<close>

theorem C6_equals_ignores_surplus_children:
  "equals (SNode IProductNode [0, 1] [SNode ILeafNode [0] [] [], SNode ILeafNode [1] [] []] [])
          (SNode IProductNode [0, 1] [SNode ILeafNode [0] [] []] []) = Inr True
   \<and> length [SNode ILeafNode [0] [] [], SNode ILeafNode [1] [] []]
       \<noteq> length [SNode ILeafNode [0] [] []]"
  by simp

section \<open>Properties of the parametric leaves\<close>

lemma norm_pdf_exp_logpdf:
  assumes "kwarg kw ''scale'' 1 \<noteq> 0"
  shows "norm_pdf x kw = exp (norm_logpdf x kw)"
proof -
  define sigma where "sigma = kwarg kw ''scale'' 1"
  have "0 < 2 * pi * sigma\<^sup>2" using assms by (simp add: sigma_def)
  then have pos: "0 < sqrt (2 * pi * sigma\<^sup>2)" by (simp only: real_sqrt_gt_zero)
  show ?thesis
    using pos unfolding norm_pdf_def norm_logpdf_def Let_def sigma_def[symmetric]
    by (simp add: exp_diff exp_ln field_simps)
qed

text \<open>
  C3. For a valid Gaussian leaf (mean and standard deviation set, a scope of one
  column that exists in the data), \<open>node_likelihood\<close> and \<open>node_log_likelihood\<close>
  return without error one entry per row; in every row whose scope cell is NaN the
  likelihood is 1 and the log-likelihood is 0, and in every other row they are the
  values of the density routines at that cell under the leaf's parameters.
\<close>

theorem C3_gaussian_marginalises_nan:
  assumes "gauss_mean node = Some m" and "gauss_stdev node = Some s"
    and "gauss_scope node = [j]" and "column_index (ncols data) j = Inr c"
  shows "\<exists>ps ls. node_likelihood depth pdf node data = Inr ps
            \<and> node_log_likelihood depth logpdf node data = Inr ls
            \<and> length ps = nrows data \<and> length ls = nrows data
            \<and> (\<forall>i<nrows data.
                  (cell_at data i c = NaN \<longrightarrow> ps ! i = 1 \<and> ls ! i = 0)
                \<and> (\<forall>x. cell_at data i c = Val x \<longrightarrow>
                        ps ! i = pdf x [(''loc'', m), (''scale'', s)]
                      \<and> ls ! i = logpdf x [(''loc'', m), (''scale'', s)]))"
  using assms
  by (simp add: node_likelihood_def node_log_likelihood_def)

theorem C3_gaussian_marginalises_nan_witness:
  "node_likelihood 0 norm_pdf
      \<lparr>gauss_scope = [0], gauss_mean = Some 0, gauss_stdev = Some 1\<rparr>
      \<lparr>nrows = 2, ncols = 1, cell_at = (\<lambda>i k. if i = 0 then NaN else Val 1)\<rparr>
     = Inr [1, norm_pdf 1 [(''loc'', 0), (''scale'', 1)]]
   \<and> node_log_likelihood 0 norm_logpdf
      \<lparr>gauss_scope = [0], gauss_mean = Some 0, gauss_stdev = Some 1\<rparr>
      \<lparr>nrows = 2, ncols = 1, cell_at = (\<lambda>i k. if i = 0 then NaN else Val 1)\<rparr>
     = Inr [0, norm_logpdf 1 [(''loc'', 0), (''scale'', 1)]]"
proof -
  let ?G = "\<lparr>gauss_scope = [0], gauss_mean = Some 0, gauss_stdev = Some 1\<rparr>"
  let ?D = "\<lparr>nrows = 2, ncols = 1, cell_at = (\<lambda>i k. if i = 0 then NaN else Val 1)\<rparr>"
  have h: "column_index (ncols ?D) 0 = Inr 0" by (simp add: column_index_def)
  obtain ps ls where p: "node_likelihood 0 norm_pdf ?G ?D = Inr ps"
      and l: "node_log_likelihood 0 norm_logpdf ?G ?D = Inr ls"
      and n: "length ps = 2" "length ls = 2"
      and v: "\<forall>i<2. (cell_at ?D i 0 = NaN \<longrightarrow> ps ! i = 1 \<and> ls ! i = 0)
                \<and> (\<forall>x. cell_at ?D i 0 = Val x \<longrightarrow>
                        ps ! i = norm_pdf x [(''loc'', 0), (''scale'', 1)]
                      \<and> ls ! i = norm_logpdf x [(''loc'', 0), (''scale'', 1)])"
    using C3_gaussian_marginalises_nan [of ?G 0 1 0 ?D 0 0 norm_pdf norm_logpdf] h
    by auto
  have "ps ! 0 = 1" "ls ! 0 = 0" using v by auto
  moreover have "ps ! 1 = norm_pdf 1 [(''loc'', 0), (''scale'', 1)]"
      "ls ! 1 = norm_logpdf 1 [(''loc'', 0), (''scale'', 1)]"
    using v by auto
  moreover have "ps = [ps ! 0, ps ! 1]" "ls = [ls ! 0, ls ! 1]"
    using n by (auto simp: list_eq_iff_nth_eq less_Suc_eq numeral_2_eq_2)
  ultimately show ?thesis using p l by simp
qed

lemma Hypergeometric_str_unset:
  assumes "hyp_N node = None \<or> hyp_M node = None \<or> hyp_n node = None"
  shows "Hypergeometric_str depth node = Inl RecursionError"
proof (induction depth)
  case 0
  show ?case by simp
next
  case (Suc depth)
  have "Hypergeometric_get_scipy_object_parameters depth node = Inl RecursionError"
    using assms Suc.IH by (auto split: option.splits)
  then show ?case by simp
qed

lemma Hypergeometric_unset_recursion:
  assumes "hyp_N node = None \<or> hyp_M node = None \<or> hyp_n node = None"
  shows "Hypergeometric_get_scipy_object_parameters depth node = Inl RecursionError"
  using assms Hypergeometric_str_unset[OF assms, of depth] by (auto split: option.splits)

lemma Gaussian_str_unset:
  assumes "gauss_mean node = None \<or> gauss_stdev node = None"
  shows "Gaussian_str depth node = Inl RecursionError"
proof (induction depth)
  case 0
  show ?case by simp
next
  case (Suc depth)
  have "Gaussian_get_scipy_object_parameters depth node = Inl RecursionError"
    using assms Suc.IH by (auto split: option.splits)
  then show ?case by simp
qed

lemma Gaussian_unset_recursion:
  assumes "gauss_mean node = None \<or> gauss_stdev node = None"
  shows "Gaussian_get_scipy_object_parameters depth node = Inl RecursionError"
  using assms Gaussian_str_unset[OF assms, of depth] by (auto split: option.splits)

text \<open>
  C8. For a Hypergeometric leaf whose stored parameters \<open>N\<close>, \<open>M\<close>, \<open>n\<close> are all set,
  \<open>get_scipy_object_parameters\<close> returns exactly the mapping
  \<open>{"M": stored N, "n": stored M, "N": stored n}\<close>, whatever nesting is left.  If
  any of the three is \<open>None\<close>, building the message of \<open>InvalidParametersError\<close>
  re-enters \<open>get_scipy_object_parameters\<close> through \<open>__str__\<close> until the nesting is
  used up: the call raises \<open>RecursionError\<close> at every depth, and never
  \<open>InvalidParametersError\<close>.
\<close>

theorem C8_hypergeometric_unset_parameter_recursion:
  "(hyp_N node = Some vN \<and> hyp_M node = Some vM \<and> hyp_n node = Some vn \<longrightarrow>
      Hypergeometric_get_scipy_object_parameters depth node
        = Inr [(''M'', vN), (''n'', vM), (''N'', vn)])
   \<and> (hyp_N node = None \<or> hyp_M node = None \<or> hyp_n node = None \<longrightarrow>
      Hypergeometric_get_scipy_object_parameters depth node = Inl RecursionError
    \<and> Hypergeometric_get_scipy_object_parameters depth node \<noteq> Inl InvalidParametersError)"
proof (intro conjI impI)
  assume "hyp_N node = Some vN \<and> hyp_M node = Some vM \<and> hyp_n node = Some vn"
  then show "Hypergeometric_get_scipy_object_parameters depth node
        = Inr [(''M'', vN), (''n'', vM), (''N'', vn)]"
    by simp
next
  assume unset: "hyp_N node = None \<or> hyp_M node = None \<or> hyp_n node = None"
  then show r: "Hypergeometric_get_scipy_object_parameters depth node = Inl RecursionError"
    by (rule Hypergeometric_unset_recursion)
  show "Hypergeometric_get_scipy_object_parameters depth node \<noteq> Inl InvalidParametersError"
    unfolding r by simp
qed

theorem C8_hypergeometric_unset_parameter_recursion_witness:
  "Hypergeometric_get_scipy_object_parameters 1000
      \<lparr>hyp_scope = [0], hyp_N = Some 500, hyp_M = Some 100, hyp_n = Some 50\<rparr>
     = Inr [(''M'', 500), (''n'', 100), (''N'', 50)]
   \<and> Hypergeometric_get_scipy_object_parameters 1000
      \<lparr>hyp_scope = [0], hyp_N = Some 500, hyp_M = None, hyp_n = Some 50\<rparr>
     = Inl RecursionError"
  using C8_hypergeometric_unset_parameter_recursion
          [of "\<lparr>hyp_scope = [0], hyp_N = Some 500, hyp_M = Some 100, hyp_n = Some 50\<rparr>"
              500 100 50 1000]
        C8_hypergeometric_unset_parameter_recursion
          [of "\<lparr>hyp_scope = [0], hyp_N = Some 500, hyp_M = None, hyp_n = Some 50\<rparr>"
              0 0 0 1000]
  by simp

lemma fold_visit_child_char:
  "fold visit_child cs (seen, queue) = (seen', queue')
     \<Longrightarrow> seen' = seen \<union> set cs
       \<and> (\<exists>new. queue' = queue @ new \<and> distinct new \<and> set new = set cs - seen)"
proof (induction cs arbitrary: seen queue)
  case Nil
  then show ?case by simp
next
  case (Cons c cs)
  show ?case
  proof (cases "c \<in> seen")
    case True
    then have "fold visit_child cs (seen, queue) = (seen', queue')"
      using Cons.prems by (simp add: visit_child_simps)
    from Cons.IH[OF this] obtain new where s: "seen' = seen \<union> set cs"
      and q: "queue' = queue @ new" and d: "distinct new"
      and n: "set new = set cs - seen" by blast
    have 1: "seen' = seen \<union> set (c # cs)" using s True by auto
    have 2: "set new = set (c # cs) - seen" using n True by auto
    show ?thesis using 1 2 q d by blast
  next
    case False
    then have "fold visit_child cs (insert c seen, queue @ [c]) = (seen', queue')"
      using Cons.prems by (simp add: visit_child_simps)
    from Cons.IH[OF this] obtain new where s: "seen' = insert c seen \<union> set cs"
      and q: "queue' = (queue @ [c]) @ new" and d: "distinct new"
      and n: "set new = set cs - insert c seen" by blast
    have 1: "seen' = seen \<union> set (c # cs)" using s by auto
    have 2: "queue' = queue @ (c # new)" using q by simp
    have 3: "distinct (c # new)" using d n by auto
    have 4: "set (c # new) = set (c # cs) - seen" using n False by auto
    show ?thesis using 1 2 3 4 by blast
  qed
qed

lemma rtrancl_Image_closed: "B \<subseteq> r\<^sup>* `` A \<Longrightarrow> r\<^sup>* `` B \<subseteq> r\<^sup>* `` A"
proof
  fix x assume b: "B \<subseteq> r\<^sup>* `` A" and "x \<in> r\<^sup>* `` B"
  then obtain y where y: "y \<in> B" "(y, x) \<in> r\<^sup>*" by blast
  then obtain a where a: "a \<in> A" "(a, y) \<in> r\<^sup>*" using b by blast
  have "(a, x) \<in> r\<^sup>*" using a(2) y(2) by (rule rtrancl_trans)
  then show "x \<in> r\<^sup>* `` A" using a(1) by blast
qed


lemma bfs_loop_inv:
  "distinct queue \<Longrightarrow> set queue \<subseteq> seen \<Longrightarrow> bfs_ok h seen queue (bfs_loop h seen queue)"
proof (induction h seen queue rule: bfs_loop.induct)
  case (1 h seen)
  then show ?case by (simp add: bfs_ok_def)
next
  case (2 h seen node queue)
  have d: "distinct queue" and s: "set queue \<subseteq> seen" and nq: "node \<notin> set queue"
    and ns: "node \<in> seen"
    using "2.prems" by auto
  show ?case
  proof (cases "isinstance_leaf h node")
    case True
    let ?R = "bfs_loop h seen queue"
    have IH: "bfs_ok h seen queue ?R" using "2.IH"(1)[OF True d s] .
    have res: "bfs_loop h seen (node # queue) = node # ?R" using True by simp
    have k: "kids h node = []" using True by (simp add: kids_def)
    have a: "node \<notin> set ?R" using IH ns nq unfolding bfs_ok_def by blast
    have dR: "distinct ?R" using IH unfolding bfs_ok_def by blast
    have b: "set queue \<subseteq> set ?R" using IH unfolding bfs_ok_def by blast
    have c: "set ?R \<inter> (seen - set queue) = {}" using IH unfolding bfs_ok_def by blast
    have e0: "set ?R \<subseteq> (edges h)\<^sup>* `` set queue" using IH unfolding bfs_ok_def by blast
    have g0: "\<forall>n \<in> set ?R. set (kids h n) \<subseteq> set ?R \<union> seen"
      using IH unfolding bfs_ok_def by blast
    have e: "set (node # ?R) \<subseteq> (edges h)\<^sup>* `` set (node # queue)"
    proof
      fix x assume "x \<in> set (node # ?R)"
      then consider "x = node" | "x \<in> set ?R" by auto
      then show "x \<in> (edges h)\<^sup>* `` set (node # queue)"
      proof cases
        case 1 then show ?thesis by auto
      next
        case 2
        then have "x \<in> (edges h)\<^sup>* `` set queue" using e0 by blast
        then show ?thesis by auto
      qed
    qed
    have g: "\<forall>n \<in> set (node # ?R). set (kids h n) \<subseteq> set (node # ?R) \<union> seen"
      using g0 k by auto
    have c': "set (node # ?R) \<inter> (seen - set (node # queue)) = {}" using c by auto
    have b': "set (node # queue) \<subseteq> set (node # ?R)" using b by auto
    have d': "distinct (node # ?R)" using a dR by simp
    show ?thesis unfolding res bfs_ok_def using d' b' c' e g by blast
  next
    case False
    obtain seen' queue' where f: "fold visit_child (children (h node)) (seen, queue) = (seen', queue')"
      by (cases "fold visit_child (children (h node)) (seen, queue)") auto
    from fold_visit_child_char[OF f] obtain new where s': "seen' = seen \<union> set (children (h node))"
      and q': "queue' = queue @ new" and dn: "distinct new"
      and sn: "set new = set (children (h node)) - seen" by blast
    have k: "kids h node = children (h node)" using False by (simp add: kids_def)
    have dq': "distinct queue'" using d dn sn s q' by auto
    have sq': "set queue' \<subseteq> seen'" using s s' sn q' by auto
    let ?R = "bfs_loop h seen' queue'"
    have IH: "bfs_ok h seen' queue' ?R" using "2.IH"(2)[OF False f[symmetric] dq' sq'] .
    have res: "bfs_loop h seen (node # queue) = node # ?R" using False f by simp
    have dR: "distinct ?R" using IH unfolding bfs_ok_def by blast
    have b: "set queue' \<subseteq> set ?R" using IH unfolding bfs_ok_def by blast
    have c: "set ?R \<inter> (seen' - set queue') = {}" using IH unfolding bfs_ok_def by blast
    have e0: "set ?R \<subseteq> (edges h)\<^sup>* `` set queue'" using IH unfolding bfs_ok_def by blast
    have g0: "\<forall>n \<in> set ?R. set (kids h n) \<subseteq> set ?R \<union> seen'"
      using IH unfolding bfs_ok_def by blast
    have "node \<in> seen' - set queue'" using ns nq s' q' sn by auto
    then have a: "node \<notin> set ?R" using c by blast
    have newR: "set new \<subseteq> set ?R" using b q' by auto
    have b': "set (node # queue) \<subseteq> set (node # ?R)" using b q' by auto
    have c': "set (node # ?R) \<inter> (seen - set (node # queue)) = {}"
    proof -
      have "seen - set (node # queue) \<subseteq> seen' - set queue'" using s' q' sn by auto
      then show ?thesis using c by auto
    qed
    have e: "set (node # ?R) \<subseteq> (edges h)\<^sup>* `` set (node # queue)"
    proof -
      have "set new \<subseteq> (edges h)\<^sup>* `` set (node # queue)"
      proof
        fix x assume "x \<in> set new"
        then have "(node, x) \<in> edges h" using sn k by (simp add: edges_def)
        then have "(node, x) \<in> (edges h)\<^sup>*" by (rule r_into_rtrancl)
        then show "x \<in> (edges h)\<^sup>* `` set (node # queue)" by auto
      qed
      moreover have "set queue \<subseteq> (edges h)\<^sup>* `` set (node # queue)" by auto
      ultimately have "set queue' \<subseteq> (edges h)\<^sup>* `` set (node # queue)"
        using q' by simp
      then have "(edges h)\<^sup>* `` set queue' \<subseteq> (edges h)\<^sup>* `` set (node # queue)"
        by (rule rtrancl_Image_closed)
      then have "set ?R \<subseteq> (edges h)\<^sup>* `` set (node # queue)" using e0 by blast
      moreover have "node \<in> (edges h)\<^sup>* `` set (node # queue)" by auto
      ultimately show ?thesis by simp
    qed
    have g: "\<forall>n \<in> set (node # ?R). set (kids h n) \<subseteq> set (node # ?R) \<union> seen"
    proof
      fix n assume "n \<in> set (node # ?R)"
      then consider "n = node" | "n \<in> set ?R" by auto
      then show "set (kids h n) \<subseteq> set (node # ?R) \<union> seen"
      proof cases
        case 1
        have "set (children (h node)) \<subseteq> set new \<union> seen" using sn by auto
        then show ?thesis using 1 k newR by auto
      next
        case 2
        then have "set (kids h n) \<subseteq> set ?R \<union> seen'" using g0 by blast
        moreover have "seen' \<subseteq> seen \<union> set new" using s' sn by auto
        ultimately show ?thesis using newR by auto
      qed
    qed
    have d': "distinct (node # ?R)" using a dR by simp
    show ?thesis unfolding res bfs_ok_def using d' b' c' e g by blast
  qed
qed

lemma reachable_closed: "n \<in> reachable h r \<Longrightarrow> set (kids h n) \<subseteq> reachable h r"
proof
  fix c assume n: "n \<in> reachable h r" and c: "c \<in> set (kids h n)"
  have "(r, n) \<in> (edges h)\<^sup>*" using n by (simp add: reachable_def)
  moreover have "(n, c) \<in> edges h" using c by (simp add: edges_def)
  ultimately have "(r, c) \<in> (edges h)\<^sup>*" by (rule rtrancl_into_rtrancl)
  then show "c \<in> reachable h r" by (simp add: reachable_def)
qed

lemma reachable_root: "r \<in> reachable h r"
  by (simp add: reachable_def)

lemma reachable_least:
  assumes r: "r \<in> A" and cl: "\<forall>n\<in>A. set (kids h n) \<subseteq> A"
  shows "reachable h r \<subseteq> A"
proof
  fix x assume "x \<in> reachable h r"
  then have "(r, x) \<in> (edges h)\<^sup>*" by (simp add: reachable_def)
  then show "x \<in> A"
  proof (induction rule: rtrancl_induct)
    case base
    show ?case using r .
  next
    case (step y z)
    then have "z \<in> set (kids h y)" by (simp add: edges_def)
    then show ?case using cl step.IH by blast
  qed
qed

lemma bfs_correct:
  "distinct (bfs h r) \<and> set (bfs h r) = reachable h r"
proof -
  have ok: "bfs_ok h {r} [r] (bfs h r)"
    unfolding bfs_def by (rule bfs_loop_inv) simp_all
  have d: "distinct (bfs h r)" using ok unfolding bfs_ok_def by blast
  have rin: "r \<in> set (bfs h r)" using ok unfolding bfs_ok_def by simp
  have sub: "set (bfs h r) \<subseteq> (edges h)\<^sup>* `` set [r]" using ok unfolding bfs_ok_def by blast
  have cl0: "\<forall>n \<in> set (bfs h r). set (kids h n) \<subseteq> set (bfs h r) \<union> {r}"
    using ok unfolding bfs_ok_def by blast
  have cl: "\<forall>n \<in> set (bfs h r). set (kids h n) \<subseteq> set (bfs h r)"
    using cl0 rin by blast
  have 1: "set (bfs h r) \<subseteq> reachable h r" using sub by (simp add: reachable_def)
  have 2: "reachable h r \<subseteq> set (bfs h r)" using rin cl by (rule reachable_least)
  show ?thesis using d 1 2 by blast
qed

lemma get_nodes_by_type_all: "get_nodes_by_type h r (\<lambda>t. True) = bfs h r"
  by (simp add: get_nodes_by_type_def)

subsection \<open>Dictionaries\<close>

lemma map_of_dict_set: "map_of (dict_set d k v) = (map_of d)(k \<mapsto> v)"
  by (induction d) (auto simp: fun_eq_iff)

lemma dict_set_twice: "dict_set (dict_set d k a) k b = dict_set d k b"
  by (induction d) auto

lemma dict_set_fresh: "k \<notin> fst ` set d \<Longrightarrow> dict_set d k v = d @ [(k, v)]"
  by (induction d) auto

lemma dict_set_last: "k \<notin> fst ` set d \<Longrightarrow> dict_set (d @ [(k, a)]) k b = d @ [(k, b)]"
  by (induction d) auto

lemma map_fst_dict_set: "k \<in> fst ` set d \<Longrightarrow> map fst (dict_set d k v) = map fst d"
  by (induction d) auto

subsection \<open>The parents and in-degree tables\<close>

lemma add_parents_result:
  "map_of d n = Some k \<Longrightarrow>
   fold_err (add_parent n) cs (p, d) =
     Inr (\<lambda>c. if c \<in> set cs then Some (plof p c @ replicate (count_list cs c) n) else p c,
          dict_set d n (k + int (length cs)))"
proof (induction cs arbitrary: p d k)
  case Nil
  have "dict_set d n k = d" using Nil
    by (induction d) (auto split: if_splits)
  then show ?case by simp
next
  case (Cons c cs)
  let ?p1 = "p(c \<mapsto> plof p c @ [n])"
  let ?d1 = "dict_set d n (k + 1)"
  have step: "add_parent n c (p, d) = Inr (?p1, ?d1)"
    using Cons.prems by (simp add: add_parent_def plof_def Let_def)
  have m1: "map_of ?d1 n = Some (k + 1)" by (simp add: map_of_dict_set)
  have pl1: "\<And>x. plof ?p1 x = (if x = c then plof p c @ [n] else plof p x)"
    by (simp add: plof_def)
  have "fold_err (add_parent n) (c # cs) (p, d) = fold_err (add_parent n) cs (?p1, ?d1)"
    using step by simp
  also have "\<dots> = Inr (\<lambda>x. if x \<in> set cs then Some (plof ?p1 x @ replicate (count_list cs x) n)
                             else ?p1 x,
                        dict_set ?d1 n (k + 1 + int (length cs)))"
    by (rule Cons.IH[OF m1])
  also have "(\<lambda>x. if x \<in> set cs then Some (plof ?p1 x @ replicate (count_list cs x) n) else ?p1 x)
      = (\<lambda>x. if x \<in> set (c # cs)
              then Some (plof p x @ replicate (count_list (c # cs) x) n) else p x)"
  proof
    fix x
    show "(if x \<in> set cs then Some (plof ?p1 x @ replicate (count_list cs x) n) else ?p1 x)
        = (if x \<in> set (c # cs)
              then Some (plof p x @ replicate (count_list (c # cs) x) n) else p x)"
    proof (cases "x = c")
      case True
      have "c \<notin> set cs \<Longrightarrow> count_list cs c = 0" by (simp add: count_list_0_iff)
      then show ?thesis using True by (auto simp: pl1)
    next
      case False
      then show ?thesis by (simp add: pl1)
    qed
  qed
  also have "dict_set ?d1 n (k + 1 + int (length cs)) = dict_set d n (k + int (length (c # cs)))"
  proof -
    have "k + 1 + int (length cs) = k + int (length (c # cs))" by simp
    then show ?thesis by (simp only: dict_set_twice)
  qed
  finally show ?case .
qed

lemma count_children_result:
  assumes "n \<notin> fst ` set d"
  shows "count_children h n (p, d) = Inr (add_kids h n p, d @ [(n, int (length (kids h n)))])"
proof -
  have none: "map_of d n = None" using assms by (simp add: map_of_eq_None_iff)
  let ?d0 = "d @ [(n, 0)]"
  have d0: "dict_set d n (case map_of d n of None \<Rightarrow> 0 | Some k \<Rightarrow> k) = ?d0"
    using none assms by (simp add: dict_set_fresh)
  show ?thesis
  proof (cases "isinstance_leaf h n")
    case True
    then have "kids h n = []" by (simp add: kids_def)
    then show ?thesis using True d0 by (simp add: count_children_def add_kids_def)
  next
    case False
    then have k: "kids h n = children (h n)" by (simp add: kids_def)
    have m: "map_of ?d0 n = Some 0" using none by (simp add: map_add_def)
    have "count_children h n (p, d) = fold_err (add_parent n) (children (h n)) (p, ?d0)"
      using False d0 by (simp add: count_children_def)
    also have "\<dots> = Inr (add_kids h n p, dict_set ?d0 n (0 + int (length (children (h n)))))"
      unfolding add_kids_def k by (rule add_parents_result[OF m])
    finally show ?thesis using assms by (simp add: dict_set_last k)
  qed
qed

lemma build_result:
  "distinct ns \<Longrightarrow> set ns \<inter> fst ` set d = {} \<Longrightarrow>
   fold_err (count_children h) ns (p, d) =
     Inr (fold (add_kids h) ns p, d @ map (\<lambda>n. (n, int (length (kids h n)))) ns)"
proof (induction ns arbitrary: p d)
  case Nil
  then show ?case by simp
next
  case (Cons n ns)
  have fresh: "n \<notin> fst ` set d" using Cons.prems by auto
  let ?d1 = "d @ [(n, int (length (kids h n)))]"
  have 1: "distinct ns" using Cons.prems by simp
  have 2: "set ns \<inter> fst ` set ?d1 = {}" using Cons.prems by auto
  show ?case
    using count_children_result[OF fresh, of h p] Cons.IH[OF 1 2, of "add_kids h n p"]
    by simp
qed



lemma plof_add_kids:
  "plof (add_kids h n p) c = plof p c @ replicate (count_list (kids h n) c) n"
proof (cases "c \<in> set (kids h n)")
  case True
  then show ?thesis by (simp add: add_kids_def plof_def)
next
  case False
  then have "count_list (kids h n) c = 0" by (simp add: count_list_0_iff)
  then show ?thesis using False by (simp add: add_kids_def plof_def)
qed

lemma count_list_replicate: "count_list (replicate k n) m = (if m = n then k else 0)"
  by (induction k) auto

lemma parents_dom:
  "(fold (add_kids h) ns p c = None) = (p c = None \<and> (\<forall>n\<in>set ns. c \<notin> set (kids h n)))"
proof (induction ns arbitrary: p)
  case Nil
  show ?case by simp
next
  case (Cons n ns)
  have "(add_kids h n p c = None) = (p c = None \<and> c \<notin> set (kids h n))"
    by (simp add: add_kids_def)
  then show ?case using Cons.IH[of "add_kids h n p"] by auto
qed

lemma parents_count:
  "distinct ns \<Longrightarrow>
   count_list (plof (fold (add_kids h) ns p) c) m =
     count_list (plof p c) m + (if m \<in> set ns then count_list (kids h m) c else 0)"
proof (induction ns arbitrary: p)
  case Nil
  show ?case by simp
next
  case (Cons n ns)
  have d: "distinct ns" and nn: "n \<notin> set ns" using Cons.prems by auto
  have "count_list (plof (fold (add_kids h) (n # ns) p) c) m
      = count_list (plof (add_kids h n p) c) m
          + (if m \<in> set ns then count_list (kids h m) c else 0)"
    using Cons.IH[OF d, of "add_kids h n p"] by simp
  also have "count_list (plof (add_kids h n p) c) m
      = count_list (plof p c) m + (if m = n then count_list (kids h n) c else 0)"
    by (simp add: plof_add_kids count_list_replicate)
  finally show ?case using nn by auto
qed

subsection \<open>Releasing the parents of a node\<close>

lemma release_parents_inner:
  assumes "\<forall>m\<in>set ms. m \<in> fst ` set d"
  shows "\<exists>d' new. fold_err release_parent ms (d, S) = Inr (d', S @ new)
           \<and> map fst d' = map fst d
           \<and> (\<forall>m. map_of d' m = map_option (\<lambda>k. k - int (count_list ms m)) (map_of d m))
           \<and> distinct new
           \<and> set new = {m \<in> set ms. \<exists>k. map_of d m = Some k \<and> 0 < k
                                        \<and> k \<le> int (count_list ms m)}"
  using assms
proof (induction ms arbitrary: d S)
  case Nil
  have "\<forall>m. map_of d m = map_option (\<lambda>k. k - int (count_list [] m)) (map_of d m)"
    by (simp add: option.map_ident)
  then show ?case by simp
next
  case (Cons m ms)
  have mk: "m \<in> fst ` set d" using Cons.prems by simp
  then obtain k where k: "map_of d m = Some k"
    by (metis map_of_eq_None_iff not_Some_eq)
  let ?d1 = "dict_set d m (k - 1)"
  let ?n0 = "if k - 1 = 0 then [m] else []"
  have step: "release_parent m (d, S) = Inr (?d1, S @ ?n0)"
    using k by (simp add: release_parent_def Let_def)
  have keys1: "map fst ?d1 = map fst d" using mk by (rule map_fst_dict_set)
  have mo1: "map_of ?d1 = (map_of d)(m \<mapsto> k - 1)" by (rule map_of_dict_set)
  have pre1: "\<forall>x\<in>set ms. x \<in> fst ` set ?d1"
  proof
    fix x assume "x \<in> set ms"
    then have "x \<in> fst ` set d" using Cons.prems by simp
    then have "x \<in> set (map fst d)" by simp
    then have "x \<in> set (map fst ?d1)" using keys1 by simp
    then show "x \<in> fst ` set ?d1" by simp
  qed
  from Cons.IH[OF pre1, of "S @ ?n0"] obtain d' new1 where
    r: "fold_err release_parent ms (?d1, S @ ?n0) = Inr (d', (S @ ?n0) @ new1)"
    and keys': "map fst d' = map fst ?d1"
    and mo': "\<forall>x. map_of d' x = map_option (\<lambda>j. j - int (count_list ms x)) (map_of ?d1 x)"
    and dn: "distinct new1"
    and sn: "set new1 = {x \<in> set ms. \<exists>j. map_of ?d1 x = Some j \<and> 0 < j
                                        \<and> j \<le> int (count_list ms x)}"
    by blast
  let ?new = "?n0 @ new1"
  have 1: "fold_err release_parent (m # ms) (d, S) = Inr (d', S @ ?new)"
    using step r by simp
  have 2: "map fst d' = map fst d" using keys' keys1 by simp
  have 3: "\<forall>x. map_of d' x = map_option (\<lambda>j. j - int (count_list (m # ms) x)) (map_of d x)"
  proof
    fix x
    show "map_of d' x = map_option (\<lambda>j. j - int (count_list (m # ms) x)) (map_of d x)"
    proof (cases "x = m")
      case True
      have "map_of d' m = Some (k - 1 - int (count_list ms m))"
        using mo' mo1 by simp
      then show ?thesis using True k by simp
    next
      case False
      have "map_of d' x = map_option (\<lambda>j. j - int (count_list ms x)) (map_of d x)"
        using mo' mo1 False by simp
      then show ?thesis using False by simp
    qed
  qed
  have m_new1: "m \<in> set new1 \<longleftrightarrow> m \<in> set ms \<and> 0 < k - 1 \<and> k - 1 \<le> int (count_list ms m)"
    using sn mo1 by simp
  have x_new1: "\<And>x. x \<noteq> m \<Longrightarrow>
      x \<in> set new1 \<longleftrightarrow> x \<in> set ms \<and> (\<exists>j. map_of d x = Some j \<and> 0 < j
                                        \<and> j \<le> int (count_list ms x))"
    using sn mo1 by simp
  have 4: "distinct ?new"
  proof (cases "k - 1 = 0")
    case True
    then have "m \<notin> set new1" using m_new1 by simp
    then show ?thesis using dn True by simp
  next
    case False
    then show ?thesis using dn by simp
  qed
  have 5: "set ?new = {x \<in> set (m # ms). \<exists>j. map_of d x = Some j \<and> 0 < j
                                        \<and> j \<le> int (count_list (m # ms) x)}"
  proof (rule set_eqI)
    fix x
    show "x \<in> set ?new \<longleftrightarrow> x \<in> {x \<in> set (m # ms). \<exists>j. map_of d x = Some j \<and> 0 < j
                                        \<and> j \<le> int (count_list (m # ms) x)}"
    proof (cases "x = m")
      case True
      have pos: "0 < count_list ms m \<longleftrightarrow> m \<in> set ms"
        by (simp add: count_list_0_iff zero_less_iff_neq_zero)
      have "x \<in> set ?new \<longleftrightarrow> k - 1 = 0 \<or> (m \<in> set ms \<and> 0 < k - 1 \<and> k - 1 \<le> int (count_list ms m))"
        using True m_new1 by auto
      also have "\<dots> \<longleftrightarrow> 0 < k \<and> k \<le> int (count_list (m # ms) m)"
        using pos by auto
      finally show ?thesis using True k by simp
    next
      case False
      have "x \<in> set ?new \<longleftrightarrow> x \<in> set new1" using False by simp
      then show ?thesis using False x_new1[OF False] by simp
    qed
  qed
  show ?case using 1 2 3 4 5 by blast
qed

subsection \<open>The loop of the topological sort\<close>

lemma filter_snoc_count:
  "n \<notin> set L \<Longrightarrow>
   length (filter (\<lambda>c. c \<notin> set (L @ [n])) ks) + count_list ks n
     = length (filter (\<lambda>c. c \<notin> set L) ks)"
  by (induction ks) auto

lemma remaining_snoc:
  "n \<notin> set L \<Longrightarrow> remaining h (L @ [n]) m = remaining h L m - int (count_list (kids h m) n)"
  using filter_snoc_count[of n L "kids h m"] by (simp add: remaining_def)

lemma remaining_zero: "remaining h L m = 0 \<longleftrightarrow> set (kids h m) \<subseteq> set L"
  by (auto simp: remaining_def filter_empty_conv)

lemma remaining_nonneg: "0 \<le> remaining h L m"
  by (simp add: remaining_def)

lemma count_le_remaining:
  "n \<notin> set L \<Longrightarrow> int (count_list (kids h m) n) \<le> remaining h L m"
  using remaining_snoc[of n L h m] remaining_nonneg[of h "L @ [n]" m] by simp

lemma count_list_pos_iff: "0 < count_list xs x \<longleftrightarrow> x \<in> set xs"
  by (simp add: count_list_0_iff zero_less_iff_neq_zero)

lemma kahn_step:
  assumes pok: "parents_ok h nodes parents"
    and inv: "kahn_inv h nodes d (n # S) L"
  shows "\<exists>d' new. release_parents parents n (d, S) = Inr (d', S @ new)
           \<and> kahn_inv h nodes d' (S @ new) (L @ [n])"
proof -
  have keys: "map fst d = nodes"
    and deg: "\<forall>m\<in>set nodes. map_of d m = Some (remaining h L m)"
    and dist: "distinct (L @ n # S)" and sub: "set (L @ n # S) \<subseteq> set nodes"
    and fin: "\<forall>m\<in>set nodes. m \<in> set (L @ n # S) \<longleftrightarrow> set (kids h m) \<subseteq> set L"
    and tp: "topo h L"
    using inv unfolding kahn_inv_def by blast+
  have nV: "n \<in> set nodes" using sub by simp
  have nL: "n \<notin> set L" using dist by simp
  obtain ms where ms: "parents n = Some ms" and msV: "set ms \<subseteq> set nodes"
    and cnt: "\<forall>m\<in>set nodes. count_list ms m = count_list (kids h m) n"
    using pok nV unfolding parents_ok_def by blast
  have dom: "fst ` set d = set nodes" using keys by (metis set_map)
  have pre: "\<forall>m\<in>set ms. m \<in> fst ` set d" using msV dom by blast
  from release_parents_inner[OF pre, of S] obtain d' new where
    r: "fold_err release_parent ms (d, S) = Inr (d', S @ new)"
    and keys': "map fst d' = map fst d"
    and deg': "\<forall>m. map_of d' m = map_option (\<lambda>k. k - int (count_list ms m)) (map_of d m)"
    and dnew: "distinct new"
    and snew: "set new = {m \<in> set ms. \<exists>k. map_of d m = Some k \<and> 0 < k
                                        \<and> k \<le> int (count_list ms m)}"
    by blast
  have rel: "release_parents parents n (d, S) = Inr (d', S @ new)"
    using ms r by (simp add: release_parents_def)
  have new_iff: "m \<in> set new \<longleftrightarrow>
      m \<in> set ms \<and> 0 < remaining h L m \<and> remaining h L m \<le> int (count_list ms m)"
    if "m \<in> set nodes" for m
    using snew deg that by auto
  have newV: "set new \<subseteq> set nodes" using snew msV by auto
  have new_fresh: "m \<notin> set (L @ n # S)" if "m \<in> set new" for m
  proof -
    have mV: "m \<in> set nodes" using that newV by auto
    have "0 < remaining h L m" using new_iff[OF mV] that by simp
    then have "\<not> set (kids h m) \<subseteq> set L" using remaining_zero[of h L m] by simp
    then show ?thesis using fin mV by auto
  qed
  have 1: "map fst d' = nodes" using keys keys' by simp
  have 2: "\<forall>m\<in>set nodes. map_of d' m = Some (remaining h (L @ [n]) m)"
  proof
    fix m assume mV: "m \<in> set nodes"
    have "map_of d' m = Some (remaining h L m - int (count_list ms m))"
      using deg' deg mV by simp
    also have "count_list ms m = count_list (kids h m) n" using cnt mV by simp
    finally show "map_of d' m = Some (remaining h (L @ [n]) m)"
      using remaining_snoc[OF nL, of h m] by simp
  qed
  have 3: "distinct ((L @ [n]) @ S @ new)"
    using dist dnew new_fresh by auto
  have 4: "set ((L @ [n]) @ S @ new) \<subseteq> set nodes"
    using sub newV by auto
  have 5: "\<forall>m\<in>set nodes. m \<in> set ((L @ [n]) @ S @ new)
              \<longleftrightarrow> set (kids h m) \<subseteq> set (L @ [n])"
  proof
    fix m assume mV: "m \<in> set nodes"
    show "m \<in> set ((L @ [n]) @ S @ new) \<longleftrightarrow> set (kids h m) \<subseteq> set (L @ [n])"
    proof (cases "m \<in> set (L @ n # S)")
      case True
      then have "set (kids h m) \<subseteq> set L" using fin mV by auto
      then have "set (kids h m) \<subseteq> set (L @ [n])" by auto
      moreover have "m \<in> set ((L @ [n]) @ S @ new)" using True by auto
      ultimately show ?thesis by simp
    next
      case False
      then have "\<not> set (kids h m) \<subseteq> set L" using fin mV by auto
      then have "remaining h L m \<noteq> 0" using remaining_zero[of h L m] by simp
      then have pos: "0 < remaining h L m" using remaining_nonneg[of h L m] by simp
      have c: "count_list ms m = count_list (kids h m) n" using cnt mV by simp
      have le: "int (count_list ms m) \<le> remaining h L m"
        using count_le_remaining[OF nL, of h m] c by simp
      have "m \<in> set ((L @ [n]) @ S @ new) \<longleftrightarrow> m \<in> set new" using False by auto
      also have "\<dots> \<longleftrightarrow> m \<in> set ms \<and> remaining h L m \<le> int (count_list ms m)"
        using new_iff[OF mV] pos by simp
      also have "\<dots> \<longleftrightarrow> remaining h L m \<le> int (count_list ms m)"
        using pos count_list_pos_iff[of ms m] by auto
      also have "\<dots> \<longleftrightarrow> remaining h (L @ [n]) m = 0"
        using remaining_snoc[OF nL, of h m] c le by auto
      also have "\<dots> \<longleftrightarrow> set (kids h m) \<subseteq> set (L @ [n])" by (rule remaining_zero)
      finally show ?thesis .
    qed
  qed
  have kn: "set (kids h n) \<subseteq> set L" using fin nV by auto
  have 6: "topo h (L @ [n])"
    unfolding topo_def
  proof (intro allI impI)
    fix i assume i: "i < length (L @ [n])"
    show "set (kids h ((L @ [n]) ! i)) \<subseteq> set (take i (L @ [n]))"
    proof (cases "i < length L")
      case True
      then show ?thesis using tp unfolding topo_def by (simp add: nth_append)
    next
      case False
      then have "i = length L" using i by simp
      then show ?thesis using kn by simp
    qed
  qed
  have "kahn_inv h nodes d' (S @ new) (L @ [n])"
    unfolding kahn_inv_def using 1 2 3 4 5 6 by blast
  then show ?thesis using rel by blast
qed

lemma kahn_loop_correct:
  assumes "parents_ok h nodes parents" and "kahn_inv h nodes d S L"
  shows "\<exists>L'. kahn_loop parents d S L = Inr L' \<and> distinct L' \<and> set L' \<subseteq> set nodes
               \<and> (\<forall>m\<in>set nodes. m \<in> set L' \<longleftrightarrow> set (kids h m) \<subseteq> set L')
               \<and> topo h L'"
  using assms
proof (induction parents d S L rule: kahn_loop.induct)
  case (1 parents in_degree L)
  then show ?case unfolding kahn_inv_def by auto
next
  case (2 parents in_degree n S L)
  from kahn_step[OF "2.prems"] obtain d' new where
    r: "release_parents parents n (in_degree, S) = Inr (d', S @ new)"
    and i: "kahn_inv h nodes d' (S @ new) (L @ [n])" by blast
  from "2.IH"[OF r refl "2.prems"(1) i] show ?case using r by simp
qed

section \<open>Properties of the evaluators\<close>

lemma fold_err_invariant:
  assumes "fold_err f xs s = Inr s'" and "P s"
    and "\<And>x s s'. P s \<Longrightarrow> f x s = Inr s' \<Longrightarrow> P s'"
  shows "P s'"
  using assms(1,2)
proof (induction xs arbitrary: s)
  case Nil
  then show ?case by simp
next
  case (Cons x xs)
  then obtain s1 where 1: "f x s = Inr s1" and 2: "fold_err f xs s1 = Inr s'"
    by (auto split: sum.splits)
  have "P s1" using assms(3)[OF Cons.prems(2) 1] .
  then show ?case using Cons.IH[OF 2] by simp
qed

subsection \<open>Scopes are never read\<close>










subsection \<open>Which callable a node is given to\<close>

lemma top_down_func_registered:
  "top_down_func h eval_functions n = Inr (key, func) \<Longrightarrow> eval_functions key = Some func"
  by (auto simp: top_down_func_def Let_def split: option.splits if_splits)







lemma diamond_layers: "get_topological_order_layers diamond N0 = Inr [[N3, N4], [N2, N1], [N0]]"
  by (simp add: get_topological_order_layers_def get_nodes_by_type_def bfs_def diamond_def
        leaf_def isinstance_leaf_def visit_child_def count_children_def add_parent_def
        release_parents_def release_parent_def Let_def layers_loop.simps)

lemma diamond_order: "get_topological_order diamond N0 = Inr [N3, N4, N2, N1, N0]"
  by (simp add: get_topological_order_def get_nodes_by_type_def bfs_def diamond_def leaf_def
        isinstance_leaf_def visit_child_def count_children_def add_parent_def
        release_parents_def release_parent_def Let_def)

lemma diamond_top_down_run:
  "top_down_run diamond N0 push_functions 0
     = Inr ([N0 \<mapsto> [0], N1 \<mapsto> [1], N2 \<mapsto> [2], N3 \<mapsto> [5, 3], N4 \<mapsto> [4]],
            [(N0, ISumNode), (N2, IProductNode), (N1, IProductNode),
             (N3, ILeafNode), (N4, ILeafNode)])"
  unfolding top_down_run_def diamond_layers
  by (simp add: eval_node_top_down_def top_down_func_def
        push_result_def push_functions_def diamond_def leaf_def isinstance_leaf_def Let_def)



subsection \<open>What top-down evaluation returns\<close>

lemma fold_push_result_other:
  "k \<notin> fst ` set items \<Longrightarrow> fold push_result items m k = m k"
  by (induction items arbitrary: m) (auto simp: push_result_def)

lemma eval_node_top_down_root:
  assumes "\<forall>key func n params items.
             eval_functions key = Some func \<and> func n params = Inr (Some items)
               \<longrightarrow> r \<notin> fst ` set items"
    and "eval_node_top_down h eval_functions x (m, calls) = Inr (m', calls')"
  shows "m' r = m r"
proof -
  from assms(2) obtain key func params result where
    f: "top_down_func h eval_functions x = Inr (key, func)"
    and c: "func x params = Inr result"
    and m': "m' = (case result of None \<Rightarrow> m
                   | Some items \<Rightarrow> if \<not> isinstance_leaf h x then fold push_result items m
                                   else m)"
    by (auto simp: eval_node_top_down_def split: sum.splits option.splits prod.splits)
  show ?thesis
  proof (cases result)
    case None
    then show ?thesis using m' by simp
  next
    case (Some items)
    have "r \<notin> fst ` set items"
      using assms(1) top_down_func_registered[OF f] c Some by blast
    then show ?thesis using m' Some by (simp add: fold_push_result_other)
  qed
qed

text \<open>
  C10. When no callable returns the root as a key of its result, \<open>eval_spn_top_down\<close>
  can return nothing but the singleton list of \<open>parent_result\<close>: a returned value is
  that list, and whenever the loop over the layers completes the function returns it.
  What the callables pushed to the other nodes is in the final \<open>all_results\<close> only.
\<close>

theorem C10_top_down_returns_seed:
  assumes "\<forall>key func n params items.
             eval_functions key = Some func \<and> func n params = Inr (Some items)
               \<longrightarrow> root_node \<notin> fst ` set items"
  shows "(\<forall>ps. eval_spn_top_down h root_node eval_functions parent_result = Inr ps
            \<longrightarrow> ps = [parent_result])
       \<and> (\<forall>all_results calls.
            top_down_run h root_node eval_functions parent_result = Inr (all_results, calls)
            \<longrightarrow> eval_spn_top_down h root_node eval_functions parent_result
                  = Inr [parent_result]
              \<and> all_results root_node = Some [parent_result])"
proof -
  have run: "all_results root_node = Some [parent_result]"
    if "top_down_run h root_node eval_functions parent_result = Inr (all_results, calls)"
    for all_results calls
  proof -
    from that obtain L where
      f: "fold_err (eval_node_top_down h eval_functions) (concat (rev L))
            ([root_node \<mapsto> [parent_result]], []) = Inr (all_results, calls)"
      by (auto simp: top_down_run_def Let_def split: sum.splits)
    let ?P = "\<lambda>st. fst st root_node = Some [parent_result]"
    have "?P (all_results, calls)"
    proof (rule fold_err_invariant[where P = ?P, OF f])
      show "?P ([root_node \<mapsto> [parent_result]], [])" by simp
    next
      fix x s s'
      assume P: "?P s" and e: "eval_node_top_down h eval_functions x s = Inr s'"
      obtain a c where s: "s = (a, c)" by (cases s)
      obtain a' c' where s': "s' = (a', c')" by (cases s')
      from eval_node_top_down_root[OF assms e[unfolded s s']] P s s'
      show "?P s'" by simp
    qed
    then show ?thesis by simp
  qed
  show ?thesis
  proof (intro conjI allI impI)
    fix ps
    assume "eval_spn_top_down h root_node eval_functions parent_result = Inr ps"
    then obtain m calls where
      r: "top_down_run h root_node eval_functions parent_result = Inr (m, calls)"
      and m: "m root_node = Some ps"
      by (auto simp: eval_spn_top_down_def split: sum.splits option.splits)
    show "ps = [parent_result]" using run[OF r] m by simp
  next
    fix all_results calls
    assume r: "top_down_run h root_node eval_functions parent_result = Inr (all_results, calls)"
    show "eval_spn_top_down h root_node eval_functions parent_result = Inr [parent_result]"
      using run[OF r] r by (simp add: eval_spn_top_down_def)
    show "all_results root_node = Some [parent_result]" using run[OF r] .
  qed
qed

theorem C10_top_down_returns_seed_witness:
  "top_down_run diamond N0 push_functions 0
     = Inr ([N0 \<mapsto> [0], N1 \<mapsto> [1], N2 \<mapsto> [2], N3 \<mapsto> [5, 3], N4 \<mapsto> [4]],
            [(N0, ISumNode), (N2, IProductNode), (N1, IProductNode),
             (N3, ILeafNode), (N4, ILeafNode)])
   \<and> eval_spn_top_down diamond N0 push_functions 0 = Inr [0]"
proof -
  have h: "\<forall>key func n params items.
             push_functions key = Some func \<and> func n params = Inr (Some items)
               \<longrightarrow> N0 \<notin> fst ` set items"
  proof (intro allI impI)
    fix key func n params items
    assume a: "push_functions key = Some func \<and> func n params = Inr (Some items)"
    then have "key = ILeafNode \<or> key = Gaussian \<or> key = IProductNode \<or> key = ISumNode"
      by (simp add: push_functions_def split: if_splits)
    then have "items = [(N3, 3), (N4, 4)] \<or> items = [(N3, 5)] \<or> items = [(N1, 1), (N2, 2)]"
      using a by (auto simp: push_functions_def split: if_splits)
    then show "N0 \<notin> fst ` set items" by auto
  qed
  have "eval_spn_top_down diamond N0 push_functions 0 = Inr [0]"
    using C10_top_down_returns_seed[OF h, of diamond 0] diamond_top_down_run by blast
  then show ?thesis using diamond_top_down_run by simp
qed

subsection \<open>Correctness of the topological sort\<close>

lemma map_of_graph: "m \<in> set ns \<Longrightarrow> map_of (map (\<lambda>n. (n, f n)) ns) m = Some (f m)"
  by (induction ns) auto

lemma zero_keys: "map fst (filter (\<lambda>p. snd p = 0) (map (\<lambda>n. (n, f n)) ns)) = filter (\<lambda>n. f n = 0) ns"
  by (induction ns) auto

lemma reachable_parent:
  assumes "c \<in> reachable h r" and "c \<noteq> r"
  shows "\<exists>n\<in>reachable h r. c \<in> set (kids h n)"
proof -
  have "(r, c) \<in> (edges h)\<^sup>*" using assms(1) by (simp add: reachable_def)
  then obtain n where "(r, n) \<in> (edges h)\<^sup>*" and "(n, c) \<in> edges h"
    using assms(2) by (metis rtranclE)
  then show ?thesis by (auto simp: reachable_def edges_def)
qed

lemma plof_root: "plof [r \<mapsto> []] c = []"
  by (simp add: plof_def)

lemma build_parents_ok:
  assumes d: "distinct nodes" and s: "set nodes = reachable h r"
  shows "parents_ok h nodes (fold (add_kids h) nodes [r \<mapsto> []])"
  unfolding parents_ok_def
proof
  let ?P = "fold (add_kids h) nodes [r \<mapsto> []]"
  fix c assume c: "c \<in> set nodes"
  have "?P c \<noteq> None"
  proof (cases "c = r")
    case True
    then show ?thesis by (simp add: parents_dom)
  next
    case False
    then obtain n where "n \<in> set nodes" "c \<in> set (kids h n)"
      using reachable_parent[of c h r] c s by auto
    then show ?thesis by (auto simp: parents_dom)
  qed
  then obtain ms where ms: "?P c = Some ms" by auto
  then have pl: "plof ?P c = ms" by (simp add: plof_def)
  have cnt: "count_list ms m = (if m \<in> set nodes then count_list (kids h m) c else 0)" for m
    using parents_count[OF d, of h "[r \<mapsto> []]" c m] pl by (simp add: plof_root)
  have "set ms \<subseteq> set nodes"
  proof
    fix x assume "x \<in> set ms"
    then have "count_list ms x \<noteq> 0" by (simp add: count_list_0_iff)
    then show "x \<in> set nodes" using cnt[of x] by (auto split: if_splits)
  qed
  moreover have "\<forall>m\<in>set nodes. count_list ms m = count_list (kids h m) c"
    using cnt by simp
  ultimately show "\<exists>ms. ?P c = Some ms \<and> set ms \<subseteq> set nodes
          \<and> (\<forall>m\<in>set nodes. count_list ms m = count_list (kids h m) c)"
    using ms by blast
qed

lemma kahn_inv_initial:
  assumes d: "distinct nodes"
  shows "kahn_inv h nodes (map (\<lambda>n. (n, int (length (kids h n)))) nodes)
           (map fst (filter (\<lambda>p. snd p = 0) (map (\<lambda>n. (n, int (length (kids h n)))) nodes)))
           []"
proof -
  let ?D = "map (\<lambda>n. (n, int (length (kids h n)))) nodes"
  have S: "map fst (filter (\<lambda>p. snd p = 0) ?D) = filter (\<lambda>n. kids h n = []) nodes"
    by (simp add: zero_keys)
  have 1: "map fst ?D = nodes" by (simp add: comp_def)
  have 2: "\<forall>m\<in>set nodes. map_of ?D m = Some (remaining h [] m)"
    by (simp add: map_of_graph remaining_def)
  have 3: "distinct ([] @ filter (\<lambda>n. kids h n = []) nodes)" using d by simp
  have 4: "set ([] @ filter (\<lambda>n. kids h n = []) nodes) \<subseteq> set nodes" by auto
  have 5: "\<forall>m\<in>set nodes. m \<in> set ([] @ filter (\<lambda>n. kids h n = []) nodes)
              \<longleftrightarrow> set (kids h m) \<subseteq> set []"
    by auto
  have 6: "topo h []" by (simp add: topo_def)
  show ?thesis unfolding kahn_inv_def S using 1 2 3 4 5 6 by blast
qed

lemma topological_order_result:
  "\<exists>L. get_topological_order h r
          = (if length L = length (bfs h r) then Inr L else Inl AssertionError)
       \<and> distinct L \<and> set L \<subseteq> reachable h r
       \<and> (\<forall>m\<in>reachable h r. m \<in> set L \<longleftrightarrow> set (kids h m) \<subseteq> set L)
       \<and> topo h L"
proof -
  let ?nodes = "bfs h r"
  let ?P = "fold (add_kids h) ?nodes [r \<mapsto> []]"
  let ?D = "map (\<lambda>n. (n, int (length (kids h n)))) ?nodes"
  let ?S = "map fst (filter (\<lambda>p. snd p = 0) ?D)"
  have d: "distinct ?nodes" and s: "set ?nodes = reachable h r"
    using bfs_correct[of h r] by simp_all
  have b: "fold_err (count_children h) ?nodes ([r \<mapsto> []], []) = Inr (?P, ?D)"
    using build_result[OF d, of "[]" h "[r \<mapsto> []]"] by simp
  from kahn_loop_correct[OF build_parents_ok[OF d s] kahn_inv_initial[OF d]]
  obtain L where k: "kahn_loop ?P ?D ?S [] = Inr L"
    and 1: "distinct L" and 2: "set L \<subseteq> set ?nodes"
    and 3: "\<forall>m\<in>set ?nodes. m \<in> set L \<longleftrightarrow> set (kids h m) \<subseteq> set L"
    and 4: "topo h L" by blast
  have "get_topological_order h r
          = (if length L = length ?nodes then Inr L else Inl AssertionError)"
    unfolding get_topological_order_def get_nodes_by_type_all Let_def b
    by (simp add: k)
  then show ?thesis using 1 2 3 4 s by auto
qed

lemma finite_reach_edges: "finite (reach_edges h (r :: 'a::finite))"
  by (rule finite_subset[of _ UNIV]) simp_all

lemma acyclic_complete:
  fixes r :: "'a::finite"
  assumes ac: "acyclic (reach_edges h r)"
    and cl: "\<forall>m\<in>reachable h r. m \<in> set L \<longleftrightarrow> set (kids h m) \<subseteq> set L"
  shows "reachable h r \<subseteq> set L"
proof -
  have wf: "wf ((reach_edges h r)\<inverse>)"
    using finite_reach_edges ac by (rule finite_acyclic_wf_converse)
  have "m \<in> reachable h r \<longrightarrow> m \<in> set L" for m
  proof (induction m rule: wf_induct_rule[OF wf])
    case (1 m)
    show ?case
    proof
      assume m: "m \<in> reachable h r"
      have "set (kids h m) \<subseteq> set L"
      proof
        fix c assume c: "c \<in> set (kids h m)"
        have "(c, m) \<in> (reach_edges h r)\<inverse>" using m c by (simp add: reach_edges_def)
        moreover have "c \<in> reachable h r" using reachable_closed[OF m] c by auto
        ultimately show "c \<in> set L" using 1 by blast
      qed
      then show "m \<in> set L" using cl m by simp
    qed
  qed
  then show ?thesis by auto
qed

lemma topo_acyclic:
  assumes tp: "topo h L" and s: "reachable h r \<subseteq> set L"
  shows "acyclic (reach_edges h r)"
proof -
  define f where "f m = (LEAST i. i < length L \<and> L ! i = m)" for m
  have fm: "f m < length L \<and> L ! f m = m" if "m \<in> set L" for m
  proof -
    from that obtain i where "i < length L \<and> L ! i = m" by (auto simp: in_set_conv_nth)
    then show ?thesis unfolding f_def by (rule LeastI)
  qed
  have "(reach_edges h r)\<inverse> \<subseteq> measure f"
  proof
    fix x assume "x \<in> (reach_edges h r)\<inverse>"
    then obtain c m where x: "x = (c, m)" and m: "m \<in> reachable h r"
      and c: "c \<in> set (kids h m)" by (auto simp: reach_edges_def)
    have mL: "m \<in> set L" using m s by auto
    have "set (kids h (L ! f m)) \<subseteq> set (take (f m) L)"
      using tp fm[OF mL] unfolding topo_def by blast
    then have "c \<in> set (take (f m) L)" using c fm[OF mL] by auto
    then obtain j where j: "j < f m" "j < length L" "L ! j = c"
      by (auto simp: in_set_conv_nth)
    have "f c \<le> j" unfolding f_def using j by (intro Least_le) simp
    then show "x \<in> measure f" using x j by simp
  qed
  then have "wf ((reach_edges h r)\<inverse>)" by (rule wf_subset[OF wf_measure])
  then have "acyclic ((reach_edges h r)\<inverse>)" by (rule wf_acyclic)
  then show ?thesis by simp
qed

lemma get_topological_order_acyclic:
  fixes r :: "'a::finite"
  assumes "acyclic (reach_edges h r)"
  shows "\<exists>L. get_topological_order h r = Inr L \<and> distinct L \<and> set L = reachable h r
             \<and> topo h L"
proof -
  from topological_order_result[of h r] obtain L where
    g: "get_topological_order h r
          = (if length L = length (bfs h r) then Inr L else Inl AssertionError)"
    and 1: "distinct L" and 2: "set L \<subseteq> reachable h r"
    and 3: "\<forall>m\<in>reachable h r. m \<in> set L \<longleftrightarrow> set (kids h m) \<subseteq> set L"
    and 4: "topo h L" by blast
  have s: "set L = reachable h r" using acyclic_complete[OF assms 3] 2 by auto
  have db: "distinct (bfs h r)" and sb: "set (bfs h r) = reachable h r"
    using bfs_correct[of h r] by simp_all
  have "length L = card (set L)" using 1 by (simp add: distinct_card)
  also have "\<dots> = card (set (bfs h r))" using s sb by simp
  also have "\<dots> = length (bfs h r)" using db by (rule distinct_card)
  finally show ?thesis using g 1 s 4 by auto
qed

lemma get_topological_order_cyclic:
  fixes r :: "'a::finite"
  assumes "\<not> acyclic (reach_edges h r)"
  shows "get_topological_order h r = Inl AssertionError"
proof -
  from topological_order_result[of h r] obtain L where
    g: "get_topological_order h r
          = (if length L = length (bfs h r) then Inr L else Inl AssertionError)"
    and 1: "distinct L" and 2: "set L \<subseteq> reachable h r"
    and 4: "topo h L" by blast
  have "length L \<noteq> length (bfs h r)"
  proof
    assume e: "length L = length (bfs h r)"
    have db: "distinct (bfs h r)" and sb: "set (bfs h r) = reachable h r"
      using bfs_correct[of h r] by simp_all
    have "card (set L) = length L" using 1 by (rule distinct_card)
    also have "\<dots> = card (set (bfs h r))" using e distinct_card[OF db] by simp
    finally have "card (set L) = card (reachable h r)" using sb by simp
    then have "set L = reachable h r"
      using 2 by (intro card_subset_eq) simp_all
    then have "acyclic (reach_edges h r)" using topo_acyclic[OF 4, of r] by simp
    then show False using assms by simp
  qed
  then show ?thesis using g by simp
qed

lemma diamond_bfs: "bfs diamond N0 = [N0, N1, N2, N3, N4]"
  by (simp add: bfs_def diamond_def leaf_def isinstance_leaf_def visit_child_def)

lemma diamond_kids:
  "kids diamond N0 = [N1, N2]" "kids diamond N1 = [N3, N4]" "kids diamond N2 = [N3, N3]"
  "kids diamond N3 = []" "kids diamond N4 = []"
  by (simp_all add: kids_def diamond_def leaf_def isinstance_leaf_def)

lemma diamond_acyclic: "acyclic (reach_edges diamond N0)"
proof (rule topo_acyclic[of _ "[N3, N4, N2, N1, N0]"])
  show "topo diamond [N3, N4, N2, N1, N0]"
    by (simp add: topo_def numeral_eq_Suc All_less_Suc diamond_kids)
  show "reachable diamond N0 \<subseteq> set [N3, N4, N2, N1, N0]"
    using bfs_correct[of diamond N0] by (auto simp: diamond_bfs)
qed

lemma cyc_cyclic: "\<not> acyclic (reach_edges cyc N0)"
proof -
  have k0: "kids cyc N0 = [N1, N2]" and k1: "kids cyc N1 = [N0]"
    by (simp_all add: kids_def cyc_def leaf_def isinstance_leaf_def)
  have r0: "N0 \<in> reachable cyc N0" by (rule reachable_root)
  have r1: "N1 \<in> reachable cyc N0" using reachable_closed[OF r0] k0 by simp
  have "(N0, N1) \<in> reach_edges cyc N0" using r0 k0 by (simp add: reach_edges_def)
  moreover have "(N1, N0) \<in> reach_edges cyc N0" using r1 k1 by (simp add: reach_edges_def)
  ultimately have "(N0, N0) \<in> (reach_edges cyc N0)\<^sup>+" by (rule trancl_into_trancl2[OF _ r_into_trancl])
  then show ?thesis by (auto simp: acyclic_def)
qed

text \<open>
  C2. On a graph without cycle, \<open>get_topological_order\<close> returns a list that contains
  every node reachable from the root exactly once, each node after all its children.
  On a graph with a cycle it fails with \<open>AssertionError\<close>: the sorted list does not
  cover the discovered nodes.  It does one or the other on every graph.
\<close>

theorem C2_topological_order:
  fixes r :: "'a::finite"
  shows "(acyclic (reach_edges h r) \<longrightarrow>
            (\<exists>L. get_topological_order h r = Inr L
                \<and> distinct L \<and> set L = reachable h r
                \<and> length L = card (reachable h r)
                \<and> (\<forall>i<length L. set (kids h (L ! i)) \<subseteq> set (take i L))))
       \<and> (\<not> acyclic (reach_edges h r) \<longrightarrow>
            get_topological_order h r = Inl AssertionError)"
proof (intro conjI impI)
  assume "acyclic (reach_edges h r)"
  from get_topological_order_acyclic[OF this] obtain L where
    L: "get_topological_order h r = Inr L" "distinct L" "set L = reachable h r" "topo h L"
    by blast
  have "length L = card (reachable h r)" using L(2,3) distinct_card[of L] by simp
  then show "\<exists>L. get_topological_order h r = Inr L
                \<and> distinct L \<and> set L = reachable h r
                \<and> length L = card (reachable h r)
                \<and> (\<forall>i<length L. set (kids h (L ! i)) \<subseteq> set (take i L))"
    using L unfolding topo_def by blast
next
  assume "\<not> acyclic (reach_edges h r)"
  then show "get_topological_order h r = Inl AssertionError"
    by (rule get_topological_order_cyclic)
qed

theorem C2_topological_order_witness:
  "acyclic (reach_edges diamond N0)
   \<and> get_topological_order diamond N0 = Inr [N3, N4, N2, N1, N0]
   \<and> set [N3, N4, N2, N1, N0] = reachable diamond N0
   \<and> \<not> acyclic (reach_edges cyc N0)
   \<and> get_topological_order cyc N0 = Inl AssertionError"
proof -
  note t = C2_topological_order[of diamond N0]
  from t diamond_acyclic obtain L where
    L: "get_topological_order diamond N0 = Inr L" "set L = reachable diamond N0"
    by blast
  have e: "get_topological_order diamond N0 = Inr [N3, N4, N2, N1, N0]"
    by (rule diamond_order)
  have "L = [N3, N4, N2, N1, N0]" using L(1) e by simp
  then have s: "set [N3, N4, N2, N1, N0] = reachable diamond N0" using L(2) by simp
  have c: "get_topological_order cyc N0 = Inl AssertionError"
    using C2_topological_order[of cyc N0] cyc_cyclic by blast
  show ?thesis using diamond_acyclic e s cyc_cyclic c by blast
qed

end
